theory Spec2Isabelle
  imports Main "HOL-Library.Sublist"
begin

section \<open>The host language: characters, regular expressions, strings\<close>

text \<open>
  The router of \<^verbatim>\<open>src/src/watchman.js\<close> builds a regular expression from a route
  pattern with four calls of \<^verbatim>\<open>String.prototype.replace\<close> and the \<^verbatim>\<open>RegExp\<close>
  constructor, and matches paths with \<^verbatim>\<open>RegExp.prototype.exec\<close>. These belong to the
  host language, so this section models them: a syntax tree for patterns, the pattern
  parser, and the backtracking matcher of ECMAScript (section 22.2.2 of the language
  specification, with the Annex B web-compatibility grammar), written as a list of
  successes in backtracking order. Strings are lists of 8-bit code units (Latin-1).
  Pattern syntax outside the fragment below (back-references, look-around,
  \<^verbatim>\<open>\b\<close>, numeric escapes) is reported as the error \<open>Unmodelled\<close>.
\<close>

subsection \<open>Characters\<close>

text \<open>
  With the flag \<^verbatim>\<open>i\<close> two characters match when their canonical forms are equal;
  the canonical form is the upper-case letter. Within Latin-1 the letters with an
  upper-case form in Latin-1 are \<^verbatim>\<open>a\<close> to \<^verbatim>\<open>z\<close> and the codes 224 to 254 but 247.
\<close>

definition to_upper :: "char \<Rightarrow> char" where
  "to_upper c = (let n = (of_char c :: nat) in
     if (97 \<le> n \<and> n \<le> 122) \<or> (224 \<le> n \<and> n \<le> 254 \<and> n \<noteq> 247) then char_of (n - 32) else c)"

definition to_lower :: "char \<Rightarrow> char" where
  "to_lower c = (let n = (of_char c :: nat) in
     if (65 \<le> n \<and> n \<le> 90) \<or> (192 \<le> n \<and> n \<le> 222 \<and> n \<noteq> 215) then char_of (n + 32) else c)"

definition canonicalize :: "bool \<Rightarrow> char \<Rightarrow> char" where
  "canonicalize ic c = (if ic then to_upper c else c)"

text \<open>
  The members of a character class: a character, a range, or one of the escapes
  \<^verbatim>\<open>\d \D \w \W \s \S\<close>. A class has a character when one of its members has the
  character or, with the flag \<^verbatim>\<open>i\<close>, a character of the same canonical form.
\<close>

datatype cls_item = CChar char | CRange char char | CDigit | CNotDigit | CWord | CNotWord | CSpace | CNotSpace

definition is_digit :: "char \<Rightarrow> bool" where
  "is_digit c = (let n = (of_char c :: nat) in 48 \<le> n \<and> n \<le> 57)"

definition is_word :: "char \<Rightarrow> bool" where
  "is_word c = (let n = (of_char c :: nat) in
     (97 \<le> n \<and> n \<le> 122) \<or> (65 \<le> n \<and> n \<le> 90) \<or> (48 \<le> n \<and> n \<le> 57) \<or> n = 95)"

definition is_space :: "char \<Rightarrow> bool" where
  "is_space c = (of_char c \<in> {9, 10, 11, 12, 13, 32, 160 :: nat})"

definition is_line_terminator :: "char \<Rightarrow> bool" where
  "is_line_terminator c = (of_char c \<in> {10, 13 :: nat})"

definition in_range :: "char \<Rightarrow> char \<Rightarrow> char \<Rightarrow> bool" where
  "in_range a b d = ((of_char a :: nat) \<le> of_char d \<and> (of_char d :: nat) \<le> of_char b)"

fun item_has :: "cls_item \<Rightarrow> char \<Rightarrow> bool" where
  "item_has (CChar a) d = (a = d)"
| "item_has (CRange a b) d = in_range a b d"
| "item_has CDigit d = is_digit d"
| "item_has CNotDigit d = (\<not> is_digit d)"
| "item_has CWord d = is_word d"
| "item_has CNotWord d = (\<not> is_word d)"
| "item_has CSpace d = is_space d"
| "item_has CNotSpace d = (\<not> is_space d)"

definition class_has :: "bool \<Rightarrow> cls_item list \<Rightarrow> char \<Rightarrow> bool" where
  "class_has ic items d =
     list_ex (\<lambda>it. item_has it d \<or> (ic \<and> (item_has it (to_upper d) \<or> item_has it (to_lower d)))) items"

subsection \<open>Patterns and the matcher\<close>

text \<open>
  A pattern: the empty pattern, a character, \<^verbatim>\<open>.\<close>, a class (negated or not), the
  assertions \<^verbatim>\<open>^\<close> and \<^verbatim>\<open>$\<close>, sequence, alternation, a capturing group with
  its number, the quantifiers \<^verbatim>\<open>* + ?\<close> (greedy when the flag is \<open>True\<close>), and the
  counted repetition \<^verbatim>\<open>{m}\<close>, \<^verbatim>\<open>{m,}\<close>, \<^verbatim>\<open>{m,n}\<close> with its minimum and its
  maximum, if any. A non-capturing group is the pattern inside it.
\<close>

datatype regex =
    REmpty
  | RChar char
  | RAny
  | RClass bool "cls_item list"
  | RBol
  | REol
  | RSeq regex regex
  | RAlt regex regex
  | RGroup nat regex
  | RStar bool regex
  | RPlus bool regex
  | ROpt bool regex
  | RRep nat "nat option" bool regex

fun group_ids :: "regex \<Rightarrow> nat list" where
  "group_ids (RSeq a b) = group_ids a @ group_ids b"
| "group_ids (RAlt a b) = group_ids a @ group_ids b"
| "group_ids (RGroup k r) = k # group_ids r"
| "group_ids (RStar g r) = group_ids r"
| "group_ids (RPlus g r) = group_ids r"
| "group_ids (ROpt g r) = group_ids r"
| "group_ids (RRep mn mx g r) = group_ids r"
| "group_ids _ = []"

text \<open>
  A state of the matcher: the index reached, the input that remains, and the captures.
  \<open>matcher ic r x\<close> lists the states in which \<open>r\<close> can end when started in \<open>x\<close>, in the
  order in which backtracking tries them, so that the matcher of a sequence tries the
  continuations of the first result first. A quantifier clears the captures of the
  groups inside it before each iteration, and with a minimum of zero an iteration that
  consumes nothing is discarded. No pattern moves backwards, so that an iteration
  consumed something exactly when the remaining input got shorter. A counted
  repetition is the host's \<^verbatim>\<open>RepeatMatcher\<close> as it stands: nothing more is tried when
  the maximum is zero; otherwise one iteration, then the repetition with both bounds
  lowered by one, mandatory as long as the minimum is positive.
\<close>

record mstate =
  pos :: nat
  rest :: string
  caps :: "nat \<Rightarrow> string option"

definition advance :: "mstate \<Rightarrow> mstate list" where
  "advance x = (case rest x of [] \<Rightarrow> [] | d # ds \<Rightarrow> [x\<lparr>pos := Suc (pos x), rest := ds\<rparr>])"

definition reset_caps :: "regex \<Rightarrow> mstate \<Rightarrow> mstate" where
  "reset_caps r x = x\<lparr>caps := (\<lambda>k. if k \<in> set (group_ids r) then None else caps x k)\<rparr>"

fun rweight :: "regex \<Rightarrow> nat" where
  "rweight (RSeq a b) = Suc (rweight a + rweight b)"
| "rweight (RAlt a b) = Suc (rweight a + rweight b)"
| "rweight (RGroup k r) = Suc (rweight r)"
| "rweight (RStar g r) = Suc (rweight r)"
| "rweight (RPlus g r) = Suc (Suc (rweight r))"
| "rweight (ROpt g r) = Suc (rweight r)"
| "rweight (RRep mn mx g r) = Suc (mn + rweight r)"
| "rweight _ = 0"

function matcher :: "bool \<Rightarrow> regex \<Rightarrow> mstate \<Rightarrow> mstate list" where
  "matcher ic REmpty x = [x]"
| "matcher ic (RChar c) x =
     (case rest x of [] \<Rightarrow> []
      | d # ds \<Rightarrow> if canonicalize ic d = canonicalize ic c then advance x else [])"
| "matcher ic RAny x =
     (case rest x of [] \<Rightarrow> []
      | d # ds \<Rightarrow> if is_line_terminator d then [] else advance x)"
| "matcher ic (RClass neg items) x =
     (case rest x of [] \<Rightarrow> []
      | d # ds \<Rightarrow> if class_has ic items d = neg then [] else advance x)"
| "matcher ic RBol x = (if pos x = 0 then [x] else [])"
| "matcher ic REol x = (if rest x = [] then [x] else [])"
| "matcher ic (RSeq a b) x = concat (map (matcher ic b) (matcher ic a x))"
| "matcher ic (RAlt a b) x = matcher ic a x @ matcher ic b x"
| "matcher ic (RGroup k r) x =
     map (\<lambda>y. y\<lparr>caps := (caps y)(k \<mapsto> take (pos y - pos x) (rest x))\<rparr>) (matcher ic r x)"
| "matcher ic (RStar g r) x =
     (let more = concat (map (\<lambda>y. if length (rest y) < length (rest x)
                                     then matcher ic (RStar g r) y else [])
                             (matcher ic r (reset_caps r x)))
      in if g then more @ [x] else x # more)"
| "matcher ic (RPlus g r) x =
     concat (map (matcher ic (RStar g r)) (matcher ic r (reset_caps r x)))"
| "matcher ic (ROpt g r) x =
     (let once = filter (\<lambda>y. length (rest y) < length (rest x)) (matcher ic r (reset_caps r x))
      in if g then once @ [x] else x # once)"
| "matcher ic (RRep mn mx g r) x =
     (if mx = Some 0 then [x]
      else if 0 < mn then
        concat (map (\<lambda>y. matcher ic (RRep (mn - 1) (map_option (\<lambda>m. m - 1) mx) g r) y)
                    (matcher ic r (reset_caps r x)))
      else
        (let more = concat (map (\<lambda>y. if length (rest y) < length (rest x)
                                       then matcher ic (RRep (mn - 1) (map_option (\<lambda>m. m - 1) mx) g r) y
                                       else [])
                                (matcher ic r (reset_caps r x)))
         in if g then more @ [x] else x # more))"
  by pat_completeness auto
termination
  by (relation "inv_image (less_than <*lex*> less_than)
        (\<lambda>(ic, r, x). (rweight r, length (rest x)))") auto

subsection \<open>Errors, and the pattern parser\<close>

text \<open>
  The errors a call can throw: the host's \<^verbatim>\<open>TypeError\<close>, \<^verbatim>\<open>SyntaxError\<close> and
  \<^verbatim>\<open>ReferenceError\<close>, the \<^verbatim>\<open>Error('Illage usage.')\<close> of \<^verbatim>\<open>watch\<close>, and \<open>Unmodelled\<close>
  for what lies outside this model. A backslash cannot be written inside a string literal here, hence the
  constant \<open>backslash\<close>.
\<close>

datatype error = TypeError | SyntaxError | ReferenceError | UsageError | Unmodelled

definition backslash :: char where "backslash = CHR 0x5C"

text \<open>
  The source text of a pattern is first cut into tokens: atoms, assertions (which take
  no quantifier), the opening of a capturing and of a non-capturing group, \<^verbatim>\<open>)\<close>,
  \<^verbatim>\<open>|\<close>, and quantifiers with their greediness (a quantifier followed by \<^verbatim>\<open>?\<close> is
  lazy). After a backslash, \<^verbatim>\<open>d D w W s S\<close> are classes, \<^verbatim>\<open>n t r f v\<close> are control
  characters, any character that is neither a letter nor a digit stands for itself, and
  the other letters and the digits are not modelled. Inside brackets a range is read
  between two unescaped characters; \<^verbatim>\<open>]\<close> and \<^verbatim>\<open>}\<close> outside brackets are ordinary
  characters, as Annex B has them. A \<^verbatim>\<open>{\<close> starts a counted repetition when it is
  followed by digits and \<^verbatim>\<open>}\<close>, by digits and \<^verbatim>\<open>,}\<close>, or by digits, a comma, digits
  and \<^verbatim>\<open>}\<close> (\<open>braced\<close> reads that text and returns the bounds and what follows); it is
  a syntax error when the bounds are out of order, and any other \<^verbatim>\<open>{\<close> is an ordinary
  character.
\<close>

datatype quant = QStar | QPlus | QOpt | QRep nat "nat option"

datatype token = TAtom regex | TAssert regex | TOpen | TOpenNC | TClose | TBar | TQuant quant bool

datatype lexmode = LNormal | LClass bool "cls_item list"

definition is_alnum :: "char \<Rightarrow> bool" where
  "is_alnum c = (is_word c \<and> c \<noteq> CHR ''_'')"

definition escape_item :: "char \<Rightarrow> error + cls_item" where
  "escape_item e =
     (if e = CHR ''d'' then Inr CDigit else if e = CHR ''D'' then Inr CNotDigit
      else if e = CHR ''w'' then Inr CWord else if e = CHR ''W'' then Inr CNotWord
      else if e = CHR ''s'' then Inr CSpace else if e = CHR ''S'' then Inr CNotSpace
      else if e = CHR ''n'' then Inr (CChar (CHR 0x0A))
      else if e = CHR ''t'' then Inr (CChar (CHR 0x09))
      else if e = CHR ''r'' then Inr (CChar (CHR 0x0D))
      else if e = CHR ''f'' then Inr (CChar (CHR 0x0C))
      else if e = CHR ''v'' then Inr (CChar (CHR 0x0B))
      else if is_alnum e then Inl Unmodelled
      else Inr (CChar e))"

definition item_atom :: "cls_item \<Rightarrow> regex" where
  "item_atom it = (case it of CChar c \<Rightarrow> RChar c | _ \<Rightarrow> RClass False [it])"

definition cons_tok :: "token \<Rightarrow> error + token list \<Rightarrow> error + token list" where
  "cons_tok t r = (case r of Inl e \<Rightarrow> Inl e | Inr ts \<Rightarrow> Inr (t # ts))"

definition quant_of :: "char \<Rightarrow> quant option" where
  "quant_of c = (if c = CHR ''*'' then Some QStar else if c = CHR ''+'' then Some QPlus
                 else if c = CHR ''?'' then Some QOpt else None)"

definition decimal :: "string \<Rightarrow> nat" where
  "decimal ds = foldl (\<lambda>a d. 10 * a + (of_char d - 48)) 0 ds"

definition braced :: "string \<Rightarrow> (nat \<times> nat option \<times> string) option" where
  "braced s =
     (let ds = takeWhile is_digit s
      in if ds = [] then None
         else (case dropWhile is_digit s of
                 [] \<Rightarrow> None
               | c # r \<Rightarrow>
                   if c = CHR ''}'' then Some (decimal ds, Some (decimal ds), r)
                   else if c = CHR '','' then
                     (let es = takeWhile is_digit r
                      in case dropWhile is_digit r of
                           [] \<Rightarrow> None
                         | e # r' \<Rightarrow>
                             if e = CHR ''}''
                             then Some (decimal ds, if es = [] then None else Some (decimal es), r')
                             else None)
                   else None))"

definition starts_range :: "string \<Rightarrow> bool" where
  "starts_range cs = (case cs of d # e # _ \<Rightarrow> d = CHR ''-'' \<and> e \<noteq> CHR '']'' | _ \<Rightarrow> False)"

function (sequential) lexer :: "lexmode \<Rightarrow> string \<Rightarrow> error + token list" where
  "lexer LNormal [] = Inr []"
| "lexer (LClass neg its) [] = Inl SyntaxError"
| "lexer LNormal (c # cs) =
     (if c = backslash then
        (case cs of [] \<Rightarrow> Inl SyntaxError
         | e # cs' \<Rightarrow> (case escape_item e of Inl err \<Rightarrow> Inl err
                        | Inr it \<Rightarrow> cons_tok (TAtom (item_atom it)) (lexer LNormal cs')))
      else if c = CHR ''['' then
        (case cs of [] \<Rightarrow> Inl SyntaxError
         | d # cs' \<Rightarrow> if d = CHR ''^'' then lexer (LClass True []) cs'
                       else lexer (LClass False []) cs)
      else if c = CHR ''('' then
        (case cs of [] \<Rightarrow> cons_tok TOpen (lexer LNormal cs)
         | q # cs' \<Rightarrow>
             if q = CHR ''?'' then
               (case cs' of [] \<Rightarrow> Inl SyntaxError
                | k # cs'' \<Rightarrow> if k = CHR '':'' then cons_tok TOpenNC (lexer LNormal cs'')
                               else if k = CHR ''='' \<or> k = CHR ''!'' \<or> k = CHR ''<''
                               then Inl Unmodelled else Inl SyntaxError)
             else cons_tok TOpen (lexer LNormal cs))
      else if c = CHR '')'' then cons_tok TClose (lexer LNormal cs)
      else if c = CHR ''|'' then cons_tok TBar (lexer LNormal cs)
      else if c = CHR ''.'' then cons_tok (TAtom RAny) (lexer LNormal cs)
      else if c = CHR ''^'' then cons_tok (TAssert RBol) (lexer LNormal cs)
      else if c = CHR ''$'' then cons_tok (TAssert REol) (lexer LNormal cs)
      else if c = CHR ''{'' then
        (case braced cs of
           None \<Rightarrow> cons_tok (TAtom (RChar c)) (lexer LNormal cs)
         | Some (mn, mx, cs') \<Rightarrow>
             if (case mx of None \<Rightarrow> False | Some m \<Rightarrow> m < mn) then Inl SyntaxError
             else (case cs' of
                     [] \<Rightarrow> cons_tok (TQuant (QRep mn mx) True) (lexer LNormal cs')
                   | l # cs'' \<Rightarrow>
                       if l = CHR ''?'' then cons_tok (TQuant (QRep mn mx) False) (lexer LNormal cs'')
                       else cons_tok (TQuant (QRep mn mx) True) (lexer LNormal cs')))
      else (case quant_of c of
              Some q \<Rightarrow>
                (case cs of [] \<Rightarrow> cons_tok (TQuant q True) (lexer LNormal cs)
                 | l # cs' \<Rightarrow> if l = CHR ''?'' then cons_tok (TQuant q False) (lexer LNormal cs')
                               else cons_tok (TQuant q True) (lexer LNormal cs))
            | None \<Rightarrow> cons_tok (TAtom (RChar c)) (lexer LNormal cs)))"
| "lexer (LClass neg its) (c # cs) =
     (if c = CHR '']'' then cons_tok (TAtom (RClass neg (rev its))) (lexer LNormal cs)
      else if c = backslash then
        (case cs of [] \<Rightarrow> Inl SyntaxError
         | e # cs' \<Rightarrow> (case escape_item e of Inl err \<Rightarrow> Inl err
                        | Inr it \<Rightarrow> (case it of
                              CChar a \<Rightarrow> if starts_range cs' then Inl Unmodelled
                                         else lexer (LClass neg (it # its)) cs'
                            | _ \<Rightarrow> lexer (LClass neg (it # its)) cs')))
      else if starts_range cs then
        (case cs of d # e # cs'' \<Rightarrow>
             if e = backslash then Inl Unmodelled
             else if (of_char e :: nat) < of_char c then Inl SyntaxError
             else lexer (LClass neg (CRange c e # its)) cs''
         | _ \<Rightarrow> Inl SyntaxError)
      else lexer (LClass neg (CChar c # its)) cs)"
  by pat_completeness auto
termination
proof -
  have d: "length (dropWhile is_digit t) \<le> length t" for t by (rule length_dropWhile_le)
  have shorter: "length r < length s" if "braced s = Some (mn, mx, r)" for s mn mx r
    using that d[of s] d[of "tl (dropWhile is_digit s)"]
    by (auto simp: braced_def Let_def split: if_splits list.splits)
  show ?thesis
    by (relation "measure (\<lambda>(m, s). length s)") (auto dest: shorter)
qed

text \<open>
  The tokens are then read from left to right with a stack of open groups. A frame
  holds the number of the group (none for a non-capturing group and for the whole
  pattern), the alternatives that are complete, and the terms of the current
  alternative, latest first, each with a mark telling whether it may take a quantifier.
  Capturing groups are numbered from 1 in the order of their opening parentheses.
\<close>

fun seq_of :: "regex list \<Rightarrow> regex" where
  "seq_of [] = REmpty"
| "seq_of [r] = r"
| "seq_of (r # rs) = RSeq r (seq_of rs)"

fun alt_of :: "regex list \<Rightarrow> regex" where
  "alt_of [] = REmpty"
| "alt_of [r] = r"
| "alt_of (r # rs) = RAlt r (alt_of rs)"

type_synonym frame = "nat option \<times> regex list \<times> (regex \<times> bool) list"

definition close_frame :: "frame \<Rightarrow> regex" where
  "close_frame f = (case f of (cap, alts, sq) \<Rightarrow>
     (let body = alt_of (rev (seq_of (rev (map fst sq)) # alts))
      in case cap of None \<Rightarrow> body | Some k \<Rightarrow> RGroup k body))"

definition apply_quant :: "quant \<Rightarrow> bool \<Rightarrow> regex \<Rightarrow> regex" where
  "apply_quant q g r =
     (case q of QStar \<Rightarrow> RStar g r | QPlus \<Rightarrow> RPlus g r | QOpt \<Rightarrow> ROpt g r
      | QRep mn mx \<Rightarrow> RRep mn mx g r)"

fun parse_tokens :: "token list \<Rightarrow> frame list \<Rightarrow> nat \<Rightarrow> error + regex \<times> nat" where
  "parse_tokens [] stack n = (case stack of [f] \<Rightarrow> Inr (close_frame f, n) | _ \<Rightarrow> Inl SyntaxError)"
| "parse_tokens (t # ts) [] n = Inl SyntaxError"
| "parse_tokens (t # ts) ((cap, alts, sq) # st) n =
     (case t of
        TAtom r \<Rightarrow> parse_tokens ts ((cap, alts, (r, True) # sq) # st) n
      | TAssert r \<Rightarrow> parse_tokens ts ((cap, alts, (r, False) # sq) # st) n
      | TOpen \<Rightarrow> parse_tokens ts ((Some n, [], []) # (cap, alts, sq) # st) (Suc n)
      | TOpenNC \<Rightarrow> parse_tokens ts ((None, [], []) # (cap, alts, sq) # st) n
      | TClose \<Rightarrow>
          (case st of [] \<Rightarrow> Inl SyntaxError
           | (cap', alts', sq') # st' \<Rightarrow>
               parse_tokens ts ((cap', alts', (close_frame (cap, alts, sq), True) # sq') # st') n)
      | TBar \<Rightarrow> parse_tokens ts ((cap, seq_of (rev (map fst sq)) # alts, []) # st) n
      | TQuant q g \<Rightarrow>
          (case sq of (r, True) # sq' \<Rightarrow>
               parse_tokens ts ((cap, alts, (apply_quant q g r, False) # sq') # st) n
           | _ \<Rightarrow> Inl SyntaxError))"

text \<open>
  A regular expression object, as far as this program uses one: the parsed pattern, the
  number of its capturing groups, and the flag \<^verbatim>\<open>i\<close>. The global flag is not part of
  the object: the program only calls \<^verbatim>\<open>exec\<close> on expressions that it built without
  that flag, and \<^verbatim>\<open>replace\<close> on literals that have it.
\<close>

record jsregexp =
  re_ast :: regex
  re_groups :: nat
  re_ignoreCase :: bool

definition regexp_compile :: "string \<Rightarrow> bool \<Rightarrow> error + jsregexp" where
  "regexp_compile src ic =
     (case lexer LNormal src of Inl e \<Rightarrow> Inl e
      | Inr ts \<Rightarrow> (case parse_tokens ts [(None, [], [])] 1 of Inl e \<Rightarrow> Inl e
                    | Inr (r, n) \<Rightarrow> Inr \<lparr>re_ast = r, re_groups = n - 1, re_ignoreCase = ic\<rparr>))"


subsection \<open>\<^verbatim>\<open>RegExp.prototype.exec\<close> and \<^verbatim>\<open>String.prototype.replace\<close>\<close>

text \<open>
  A match carries its index, the matched text and the captures 1..n (a group that did not
  participate is \<open>None\<close>, the host's \<^verbatim>\<open>undefined\<close>). \<open>exec\<close> is the search of a
  regular expression without the global flag: it tries every start index from 0.
\<close>

record rmatch =
  m_index :: nat
  m_text :: string
  m_groups :: "string option list"

definition try_at :: "jsregexp \<Rightarrow> nat \<Rightarrow> string \<Rightarrow> rmatch option" where
  "try_at re i s =
     (case matcher (re_ignoreCase re) (re_ast re) \<lparr>pos = i, rest = s, caps = (\<lambda>_. None)\<rparr> of
        [] \<Rightarrow> None
      | y # _ \<Rightarrow> Some \<lparr>m_index = i, m_text = take (pos y - i) s,
                         m_groups = map (caps y) [1..<Suc (re_groups re)]\<rparr>)"

fun exec_from :: "jsregexp \<Rightarrow> nat \<Rightarrow> string \<Rightarrow> rmatch option" where
  "exec_from re i [] = try_at re i []"
| "exec_from re i (c # cs) =
     (case try_at re i (c # cs) of Some mt \<Rightarrow> Some mt | None \<Rightarrow> exec_from re (Suc i) cs)"

definition exec :: "jsregexp \<Rightarrow> string \<Rightarrow> rmatch option" where
  "exec re s = exec_from re 0 s"

definition re_test :: "jsregexp \<Rightarrow> string \<Rightarrow> bool" where
  "re_test re s = (exec re s \<noteq> None)"

definition match_array :: "rmatch \<Rightarrow> string option list" where
  "match_array mt = Some (m_text mt) # m_groups mt"

definition group_text :: "rmatch \<Rightarrow> nat \<Rightarrow> string" where
  "group_text mt k = (case drop (k - 1) (m_groups mt) of Some t # _ \<Rightarrow> t | _ \<Rightarrow> [])"

text \<open>
  \<^verbatim>\<open>s.replace(re, f)\<close> for a regular expression with the global flag: the string is cut
  into untouched characters and matches, scanned left to right; \<open>k\<close> counts the
  characters still covered by the last match, and an empty match lets the search resume
  one index further, as the host's \<^verbatim>\<open>lastIndex\<close> does. The replacement is a function
  of the match; the replacement strings of the source (\<^verbatim>\<open>'(?:'\<close>, \<^verbatim>\<open>'(.*)'\<close>,
  \<^verbatim>\<open>')'\<close>, \<^verbatim>\<open>''\<close>) contain no \<^verbatim>\<open>$\<close> and are inserted as they are.
\<close>

fun scan_g :: "jsregexp \<Rightarrow> nat \<Rightarrow> nat \<Rightarrow> string \<Rightarrow> (char + rmatch) list" where
  "scan_g re i k [] =
     (if k = 0 then (case try_at re i [] of None \<Rightarrow> [] | Some mt \<Rightarrow> [Inr mt]) else [])"
| "scan_g re i (Suc k) (c # cs) = scan_g re (Suc i) k cs"
| "scan_g re i 0 (c # cs) =
     (case try_at re i (c # cs) of
        None \<Rightarrow> Inl c # scan_g re (Suc i) 0 cs
      | Some mt \<Rightarrow>
          (if m_text mt = [] then Inr mt # Inl c # scan_g re (Suc i) 0 cs
           else Inr mt # scan_g re (Suc i) (length (m_text mt) - 1) cs))"

definition pieces_text :: "(rmatch \<Rightarrow> string) \<Rightarrow> (char + rmatch) list \<Rightarrow> string" where
  "pieces_text f ps = concat (map (case_sum (\<lambda>c. [c]) f) ps)"

definition pieces_hits :: "(char + rmatch) list \<Rightarrow> rmatch list" where
  "pieces_hits ps = List.map_filter (case_sum (\<lambda>c. None) Some) ps"

definition replace_g :: "jsregexp \<Rightarrow> (rmatch \<Rightarrow> string) \<Rightarrow> string \<Rightarrow> string" where
  "replace_g re f s = pieces_text f (scan_g re 0 0 s)"

text \<open>\<^verbatim>\<open>s.replace(pat, rep)\<close> for a string pattern: the first occurrence only.\<close>

fun replace_first :: "string \<Rightarrow> string \<Rightarrow> string \<Rightarrow> string" where
  "replace_first pat rep [] = (if pat = [] then rep else [])"
| "replace_first pat rep (c # cs) =
     (if prefix pat (c # cs) then rep @ drop (length pat) (c # cs)
      else c # replace_first pat rep cs)"

text \<open>\<^verbatim>\<open>indexOf\<close> of strings and arrays (\<open>-1\<close> when absent), \<^verbatim>\<open>join\<close>, \<^verbatim>\<open>splice\<close>.\<close>

fun index_from :: "string \<Rightarrow> string \<Rightarrow> nat \<Rightarrow> int" where
  "index_from [] t i = (if t = [] then int i else - 1)"
| "index_from (c # cs) t i = (if prefix t (c # cs) then int i else index_from cs t (Suc i))"

definition str_indexOf :: "string \<Rightarrow> string \<Rightarrow> int" where
  "str_indexOf s t = index_from s t 0"

fun find_from :: "('a \<Rightarrow> bool) \<Rightarrow> 'a list \<Rightarrow> nat \<Rightarrow> int" where
  "find_from same [] i = - 1"
| "find_from same (x # xs) i = (if same x then int i else find_from same xs (Suc i))"

definition arr_indexOf :: "'a list \<Rightarrow> 'a \<Rightarrow> int" where
  "arr_indexOf xs v = find_from (\<lambda>x. x = v) xs 0"

fun join :: "string \<Rightarrow> string list \<Rightarrow> string" where
  "join sep [] = []"
| "join sep [x] = x"
| "join sep (x # y # ys) = x @ sep @ join sep (y # ys)"

definition splice :: "int \<Rightarrow> int \<Rightarrow> 'a list \<Rightarrow> 'a list" where
  "splice start cnt xs =
     (let len = int (length xs);
          from = (if start < 0 then max (len + start) 0 else min start len);
          del = min (max cnt 0) (len - from)
      in take (nat from) xs @ drop (nat (from + del)) xs)"

section \<open>The pattern compiler\<close>

text \<open>
  The regular-expression literals of \<^verbatim>\<open>pathToRegExp\<close> and \<^verbatim>\<open>isHashRouter\<close>, as the
  parser above reads them (the lemmas \<open>re_*_source\<close> below check each against its text):
  \<^verbatim>\<open>/([\/\(]+):/g\<close>, \<^verbatim>\<open>/\(\?:(\w+)((\(.*?\))*)/g\<close>, \<^verbatim>\<open>/\(|\)/g\<close>, \<^verbatim>\<open>/\*/g\<close>
  and \<^verbatim>\<open>/^#/\<close>.
\<close>

definition re_sep_colon :: jsregexp where
  "re_sep_colon = \<lparr>re_ast = RSeq (RGroup 1 (RPlus True (RClass False [CChar (CHR ''/''), CChar (CHR ''('')])))
                                  (RChar (CHR '':'')),
                    re_groups = 1, re_ignoreCase = False\<rparr>"

definition re_param :: jsregexp where
  "re_param = \<lparr>re_ast =
       RSeq (RChar (CHR ''(''))
        (RSeq (RChar (CHR ''?''))
          (RSeq (RChar (CHR '':''))
            (RSeq (RGroup 1 (RPlus True (RClass False [CWord])))
              (RGroup 2
                (RStar True
                  (RGroup 3
                    (RSeq (RChar (CHR ''(''))
                      (RSeq (RStar False RAny) (RChar (CHR '')'')))))))))),
     re_groups = 3, re_ignoreCase = False\<rparr>"

definition re_paren :: jsregexp where
  "re_paren = \<lparr>re_ast = RAlt (RChar (CHR ''('')) (RChar (CHR '')'')),
                re_groups = 0, re_ignoreCase = False\<rparr>"

definition re_star :: jsregexp where
  "re_star = \<lparr>re_ast = RChar (CHR ''*''), re_groups = 0, re_ignoreCase = False\<rparr>"

definition re_hash :: jsregexp where
  "re_hash = \<lparr>re_ast = RSeq RBol (RChar (CHR ''#'')), re_groups = 0, re_ignoreCase = False\<rparr>"

definition isHashRouter :: "string \<Rightarrow> bool" where
  "isHashRouter path = re_test re_hash path"

text \<open>
  A route pattern is a string, an array of strings or a regular expression object. The
  callback of the second \<^verbatim>\<open>replace\<close> pushes the parameter name (group 1) and returns
  the rewritten segment; \<open>optional\<close> is group 2, and the empty string is falsy. The
  string literal \<^verbatim>\<open>'\/?([^\/]+)'\<close> of the source denotes the text \<^verbatim>\<open>/?([^/]+)\<close>.
\<close>

datatype pattern = PStr string | PArr "string list" | PRegExp jsregexp

record compiled =
  keys :: "string list"
  regexp :: jsregexp

definition param_replacer :: "rmatch \<Rightarrow> string" where
  "param_replacer mt =
     (let optional = group_text mt 2;
          mtch = (if optional \<noteq> [] then replace_g re_paren (\<lambda>_. []) optional
                  else ''/?([^/]+)'')
      in ''(?:'' @ mtch @ ''?)'')"

definition regexp_source :: "string \<Rightarrow> string" where
  "regexp_source path =
     (if isHashRouter path then [] else ''^'') @
     replace_g re_star (\<lambda>_. ''(.*)'')
       (replace_first ''))'' '')''
         (replace_g re_param param_replacer
           (replace_g re_sep_colon (\<lambda>_. ''(?:'') path))) @
     ''((#.+)?)$''"

definition param_keys :: "string \<Rightarrow> string list" where
  "param_keys path =
     map (\<lambda>mt. group_text mt 1)
       (pieces_hits (scan_g re_param 0 0 (replace_g re_sep_colon (\<lambda>_. ''(?:'') path)))"

definition pathToRegExp :: "pattern \<Rightarrow> error + compiled" where
  "pathToRegExp p =
     (case p of
        PRegExp re \<Rightarrow> Inr \<lparr>keys = [], regexp = re\<rparr>
      | _ \<Rightarrow>
          (let path = (case p of PArr a \<Rightarrow> ''('' @ join ''|'' a @ '')'' | PStr s \<Rightarrow> s | _ \<Rightarrow> [])
           in case regexp_compile (regexp_source path) True of
                Inl e \<Rightarrow> Inl e
              | Inr re \<Rightarrow> Inr \<lparr>keys = param_keys path, regexp = re\<rparr>))"

section \<open>The router\<close>

subsection \<open>Values, callbacks and the router object\<close>

text \<open>
  The route context handed to middlewares and handlers is \<^verbatim>\<open>{params, path}\<close>;
  \<open>params\<close> is an object, kept as an association list in insertion order, whose values
  are strings or \<^verbatim>\<open>undefined\<close> (\<open>None\<close>).

  A function supplied by the user has an identity \<open>fid\<close> (functions are compared by
  reference, as \<^verbatim>\<open>indexOf\<close> does) and, when it is used as a middleware, the number of
  times it calls its continuation for a given context. User functions are taken not to
  throw and not to call back into the router; everything else they do is outside the
  router and is kept as an entry of the call log.
\<close>

record ctx =
  params :: "(string \<times> string option) list"
  path :: string

record jsfun =
  fid :: nat
  calls_next :: "ctx \<Rightarrow> nat"

datatype jsval =
    VUndefined
  | VStr string
  | VStringObj string
  | VRegExp jsregexp
  | VArr "string list"
  | VObj "(string \<times> jsval) list"
  | VFun jsfun

text \<open>
  The handler stored in a rule is the value given at registration, or the closure that
  \<^verbatim>\<open>createRule\<close> builds around a \<^verbatim>\<open>String\<close> object (\<open>HRedirect target\<close>).
\<close>

datatype handler = HVal jsval | HRedirect string

record rule = compiled +
  handler :: handler

datatype event =
    MiddlewareCalled nat nat
  | NextCalled nat
  | HandlerCalled nat ctx
  | RedirectCalled string
  | CallbackCalled nat

text \<open>
  The properties of the function object \<^verbatim>\<open>watch\<close>: \<^verbatim>\<open>_watching\<close>,
  \<^verbatim>\<open>_watchman_middlewares\<close> and \<^verbatim>\<open>_events\<close> are absent (\<open>None\<close>) until first
  written; \<open>location\<close> is the host's \<^verbatim>\<open>location.pathname + location.hash\<close>; \<open>log\<close> is
  the record of the user functions called so far: a middleware (its index and
  identity), the continuation that a middleware received, a handler with its context,
  the closure of a redirect, and the callback of \<^verbatim>\<open>watch.run\<close>. A listener never
  appears in it, because \<^verbatim>\<open>watch.emit\<close> fails before it calls one (see below).
\<close>

record router =
  watching :: "rule list option"
  middlewares :: "jsval list option"
  events :: "(string \<rightharpoonup> jsfun list) option"
  running :: bool
  base :: string
  location :: string
  log :: "event list"

definition fresh :: "string \<Rightarrow> router" where
  "fresh loc = \<lparr>watching = None, middlewares = None, events = None, running = False,
                 base = [], location = loc, log = []\<rparr>"

datatype res = Normal router | Throws error router

definition logged :: "event \<Rightarrow> router \<Rightarrow> router" where
  "logged e s = s\<lparr>log := log s @ [e]\<rparr>"

definition truthy :: "jsval \<Rightarrow> bool" where
  "truthy v = (case v of VUndefined \<Rightarrow> False | VStr t \<Rightarrow> t \<noteq> [] | _ \<Rightarrow> True)"

subsection \<open>\<^verbatim>\<open>createRule\<close> and registration\<close>

text \<open>
  \<^verbatim>\<open>path.indexOf\<close> is \<^verbatim>\<open>String.prototype.indexOf\<close> for a string,
  \<^verbatim>\<open>Array.prototype.indexOf\<close> for an array, and is not defined for a regular
  expression, a plain object, a function or \<^verbatim>\<open>undefined\<close>: the call throws a
  TypeError. For an array, \<^verbatim>\<open>path == '/'\<close> and \<^verbatim>\<open>base + path\<close> convert the array
  to the string of its elements joined by commas. A \<^verbatim>\<open>String\<close> object as path is not
  modelled.
\<close>

definition createRule :: "string \<Rightarrow> jsval \<Rightarrow> jsval \<Rightarrow> error + rule" where
  "createRule bs pth hnd =
     (let prefixed = (\<lambda>t. bs @ (if t = ''/'' then [] else t));
          pat = (case pth of
                   VStr t \<Rightarrow>
                     if ''*'' \<noteq> t \<and> 0 \<noteq> str_indexOf t bs then Inr (PStr (prefixed t))
                     else Inr (PStr t)
                 | VArr a \<Rightarrow>
                     if 0 \<noteq> arr_indexOf a bs then Inr (PStr (prefixed (join '','' a)))
                     else Inr (PArr a)
                 | VStringObj t \<Rightarrow> Inl Unmodelled
                 | _ \<Rightarrow> Inl TypeError)
      in case pat of
           Inl e \<Rightarrow> Inl e
         | Inr p \<Rightarrow>
             (case pathToRegExp p of
                Inl e \<Rightarrow> Inl e
              | Inr c \<Rightarrow>
                  Inr \<lparr>keys = keys c, regexp = regexp c,
                       handler = (case hnd of VStringObj target \<Rightarrow> HRedirect target
                                  | _ \<Rightarrow> HVal hnd)\<rparr>))"

text \<open>
  The registration branch of \<^verbatim>\<open>watch\<close> (two arguments or more), and the loop of its
  one-argument branch over the properties of an object, which makes a two-argument call
  for each property.
\<close>

definition register :: "jsval \<Rightarrow> jsval \<Rightarrow> router \<Rightarrow> res" where
  "register pth hnd s =
     (let rs = (case watching s of None \<Rightarrow> [] | Some rs \<Rightarrow> rs);
          s1 = s\<lparr>watching := Some rs\<rparr>
      in case createRule (base s1) pth hnd of
           Inl e \<Rightarrow> Throws e s1
         | Inr r \<Rightarrow> Normal (s1\<lparr>watching := Some (rs @ [r])\<rparr>))"

fun watch_object :: "(string \<times> jsval) list \<Rightarrow> router \<Rightarrow> res" where
  "watch_object [] s = Normal s"
| "watch_object ((k, v) # ps) s =
     (case register (VStr k) v s of
        Normal s' \<Rightarrow> watch_object ps s'
      | Throws e s' \<Rightarrow> Throws e s')"

definition use :: "jsval list \<Rightarrow> router \<Rightarrow> router" where
  "use args s =
     s\<lparr>middlewares := Some ((case middlewares s of None \<Rightarrow> [] | Some ms \<Rightarrow> ms) @ args)\<rparr>"

definition set_base :: "string \<Rightarrow> router \<Rightarrow> router" where
  "set_base b s = s\<lparr>base := b\<rparr>"

subsection \<open>Events\<close>

text \<open>
  \<^verbatim>\<open>watch._events\<close> is an object literal \<^verbatim>\<open>{}\<close>, created on first use. Its own
  properties are the listener lists. Reading \<^verbatim>\<open>_events[type]\<close> for a \<open>type\<close> that is
  not an own property finds what the object inherits from \<^verbatim>\<open>Object.prototype\<close>:
  \<open>object_prototype\<close> lists those names, each with the number that the loop test
  \<^verbatim>\<open>i < handlers.length\<close> compares with (the arity of the inherited function;
  \<^verbatim>\<open>__proto__\<close> is the prototype object itself, which has no \<^verbatim>\<open>length\<close>, and the
  test is false). All of these values are truthy, and none has a method \<^verbatim>\<open>push\<close> or
  \<^verbatim>\<open>indexOf\<close>.
\<close>

definition object_prototype :: "(string \<times> nat) list" where
  "object_prototype =
     [(''constructor'', 1), (''hasOwnProperty'', 1), (''isPrototypeOf'', 1),
      (''propertyIsEnumerable'', 1), (''toLocaleString'', 0), (''toString'', 0),
      (''valueOf'', 0), (''__defineGetter__'', 2), (''__defineSetter__'', 2),
      (''__lookupGetter__'', 1), (''__lookupSetter__'', 1), (''__proto__'', 0)]"

definition init_events :: "router \<Rightarrow> router" where
  "init_events s = (case events s of None \<Rightarrow> s\<lparr>events := Some Map.empty\<rparr> | Some _ \<Rightarrow> s)"

definition listeners_of :: "router \<Rightarrow> string \<Rightarrow> jsfun list option" where
  "listeners_of s ty = (case events s of None \<Rightarrow> None | Some ev \<Rightarrow> ev ty)"

definition set_listeners :: "string \<Rightarrow> jsfun list option \<Rightarrow> router \<Rightarrow> router" where
  "set_listeners ty hs s =
     s\<lparr>events := Some ((case events s of None \<Rightarrow> Map.empty | Some ev \<Rightarrow> ev)(ty := hs))\<rparr>"

text \<open>
  \<^verbatim>\<open>watch.on\<close>: the listener must be a function; a type without a list gets the
  empty list, unless the object inherits a value under that name, on which
  \<^verbatim>\<open>push\<close> is then called and throws a TypeError.
\<close>

definition on :: "string \<Rightarrow> jsval \<Rightarrow> router \<Rightarrow> res" where
  "on ty listener s =
     (let s1 = init_events s
      in case listener of
           VFun f \<Rightarrow>
             (case listeners_of s1 ty of
                Some hs \<Rightarrow> Normal (set_listeners ty (Some (hs @ [f])) s1)
              | None \<Rightarrow>
                  (case map_of object_prototype ty of
                     Some n \<Rightarrow> Throws TypeError s1
                   | None \<Rightarrow> Normal (set_listeners ty (Some [f]) s1)))
         | _ \<Rightarrow> Throws TypeError s1)"

text \<open>
  \<^verbatim>\<open>watch.emit\<close>: the body of its loop starts with \<^verbatim>\<open>slice(arguments)\<close>, and no
  \<^verbatim>\<open>slice\<close> is declared in \<^verbatim>\<open>src/src/watchman.js\<close> (nor in the bundle built from
  it; the two older bundles had such a helper). So the first iteration throws a
  ReferenceError before any listener is called: \<^verbatim>\<open>emit\<close> returns normally exactly
  when the loop does not iterate, that is when the type has no listener list, or an
  empty one, or an inherited value whose \<^verbatim>\<open>length\<close> is not positive. The arguments
  after the type are only ever read by a listener, hence not at all.
\<close>

definition emit :: "string \<Rightarrow> string list \<Rightarrow> router \<Rightarrow> res" where
  "emit ty args s =
     (let s1 = init_events s;
          iterations = (case listeners_of s1 ty of
                          Some hs \<Rightarrow> length hs
                        | None \<Rightarrow> (case map_of object_prototype ty of Some n \<Rightarrow> n | None \<Rightarrow> 0))
      in if 0 < iterations then Throws ReferenceError s1 else Normal s1)"

text \<open>
  \<^verbatim>\<open>watch.removeEventListener\<close>: \<^verbatim>\<open>handlers.splice(handlers.indexOf(listener), 1)\<close>,
  where \<^verbatim>\<open>indexOf\<close> is -1 for a function that is not in the list; on an inherited
  value the call of \<^verbatim>\<open>indexOf\<close> throws a TypeError. \<^verbatim>\<open>watch.removeAllListeners\<close>
  deletes the own property, if any.
\<close>

definition removeEventListener :: "string \<Rightarrow> jsval \<Rightarrow> router \<Rightarrow> res" where
  "removeEventListener ty listener s =
     (let s1 = init_events s
      in case listener of
           VFun f \<Rightarrow>
             (case listeners_of s1 ty of
                None \<Rightarrow>
                  (case map_of object_prototype ty of
                     Some n \<Rightarrow> Throws TypeError s1
                   | None \<Rightarrow> Normal s1)
              | Some hs \<Rightarrow>
                  (let i = find_from (\<lambda>h. fid h = fid f) hs 0
                   in Normal (set_listeners ty (Some (splice i 1 hs)) s1)))
         | _ \<Rightarrow> Throws TypeError s1)"

definition removeAllListeners :: "string \<Rightarrow> router \<Rightarrow> router" where
  "removeAllListeners ty s = set_listeners ty None (init_events s)"

subsection \<open>Dispatch\<close>

text \<open>
  \<^verbatim>\<open>paramsParser\<close>: \<^verbatim>\<open>exec(url).slice(1)\<close> (a TypeError on \<^verbatim>\<open>null\<close>), then
  \<^verbatim>\<open>params[keys[i]] = matches[i]\<close> for every key, \<^verbatim>\<open>undefined\<close> past the end. The
  assignment creates or overwrites an own property of \<^verbatim>\<open>params\<close>, except for the key
  \<^verbatim>\<open>__proto__\<close>: that one is an inherited setter, which ignores a string and
  \<^verbatim>\<open>undefined\<close>, so that nothing is stored.
\<close>

fun obj_set :: "string \<Rightarrow> 'v \<Rightarrow> (string \<times> 'v) list \<Rightarrow> (string \<times> 'v) list" where
  "obj_set k v [] = [(k, v)]"
| "obj_set k v ((k', v') # ps) = (if k' = k then (k, v) # ps else (k', v') # obj_set k v ps)"

definition obj_get :: "(string \<times> 'v option) list \<Rightarrow> string \<Rightarrow> 'v option" where
  "obj_get ps k = (case map_of ps k of None \<Rightarrow> None | Some v \<Rightarrow> v)"

fun bind_params ::
  "string list \<Rightarrow> string option list \<Rightarrow> (string \<times> string option) list
     \<Rightarrow> (string \<times> string option) list" where
  "bind_params [] ms ps = ps"
| "bind_params (k # ks) ms ps =
     bind_params ks (drop 1 ms)
       (if k = ''__proto__'' then ps
        else obj_set k (case ms of [] \<Rightarrow> None | m # _ \<Rightarrow> m) ps)"

definition paramsParser :: "string \<Rightarrow> rule \<Rightarrow> error + (string \<times> string option) list" where
  "paramsParser url r =
     (case exec (regexp r) url of
        None \<Rightarrow> Inl TypeError
      | Some mt \<Rightarrow> Inr (bind_params (keys r) (drop 1 (match_array mt)) []))"

text \<open>
  \<^verbatim>\<open>hit(ctx)\<close>: a user function is called (logged); the redirect closure runs
  \<^verbatim>\<open>watch({url: target})\<close>, a one-argument call with an object, that is the loop
  \<open>watch_object\<close>; any other value is not callable.
\<close>

definition invoke :: "handler \<Rightarrow> ctx \<Rightarrow> router \<Rightarrow> res" where
  "invoke h c s =
     (case h of
        HVal (VFun f) \<Rightarrow> Normal (logged (HandlerCalled (fid f) c) s)
      | HVal _ \<Rightarrow> Throws TypeError s
      | HRedirect target \<Rightarrow>
          watch_object [(''url'', VStringObj target)] (logged (RedirectCalled target) s))"

definition arr_get :: "jsval list \<Rightarrow> nat \<Rightarrow> jsval" where
  "arr_get xs i = (if i < length xs then xs ! i else VUndefined)"

text \<open>
  The middleware chain. \<^verbatim>\<open>layer(index)\<close> is only ever called with the current value
  of the shared counter \<^verbatim>\<open>_i\<close>, here \<open>i\<close>. The calls are synchronous, so the pending
  work is a stack: one entry \<open>(index, n)\<close> for each middleware that has been entered and
  has not returned, with the number \<open>n\<close> of continuation calls it has yet to make.
  \<open>resume\<close> runs the innermost entry: it returns when \<open>n\<close> is 0, and otherwise performs
  one call of the continuation \<^verbatim>\<open>function() { layer(++_i) }\<close>.
\<close>

fun pending :: "(nat \<times> nat) list \<Rightarrow> nat" where
  "pending [] = 0"
| "pending ((idx, n) # st) = Suc (n + pending st)"

function layer :: "jsval list \<Rightarrow> handler \<Rightarrow> ctx \<Rightarrow> nat \<Rightarrow> (nat \<times> nat) list \<Rightarrow> router \<Rightarrow> res"
  and resume :: "jsval list \<Rightarrow> handler \<Rightarrow> ctx \<Rightarrow> nat \<Rightarrow> (nat \<times> nat) list \<Rightarrow> router \<Rightarrow> res"
where
  "layer mws hit c i st s =
     (let curr = arr_get mws i
      in if truthy curr then
           (case curr of
              VFun f \<Rightarrow> resume mws hit c i ((i, calls_next f c) # st)
                          (logged (MiddlewareCalled i (fid f)) s)
            | _ \<Rightarrow> Throws TypeError s)
         else
           (case invoke hit c s of
              Normal s' \<Rightarrow> resume mws hit c i st s'
            | Throws e s' \<Rightarrow> Throws e s'))"
| "resume mws hit c i [] s = Normal s"
| "resume mws hit c i ((idx, 0) # st) s = resume mws hit c i st s"
| "resume mws hit c i ((idx, Suc n) # st) s =
     layer mws hit c (Suc i) ((idx, n) # st) (logged (NextCalled idx) s)"
  by pat_completeness auto
termination
  by (relation "inv_image (less_than <*lex*> less_than <*lex*> less_than)
        (\<lambda>x. case x of
           Inl (mws, hit, c, i, st, s) \<Rightarrow> (Suc (length mws) - i, pending st, 1::nat)
         | Inr (mws, hit, c, i, st, s) \<Rightarrow> (length mws - i, pending st, 0))")
     (auto simp: arr_get_def truthy_def split: if_splits)

text \<open>The body of the loop of \<^verbatim>\<open>watch.run\<close> for a rule that matched.\<close>

definition hit_rule :: "rule \<Rightarrow> string \<Rightarrow> router \<Rightarrow> res" where
  "hit_rule r pth s =
     (case paramsParser pth r of
        Inl e \<Rightarrow> Throws e s
      | Inr ps \<Rightarrow>
          (let c = \<lparr>params = ps, path = pth\<rparr>
           in case middlewares s of
                Some mws \<Rightarrow> layer mws (handler r) c 0 [] s
              | None \<Rightarrow> invoke (handler r) c s))"

text \<open>
  \<^verbatim>\<open>for (let i = 0; i < watching.length; i++) if (watching[i].regexp.exec(path)) { ...; break }\<close>
\<close>

fun dispatch :: "rule list \<Rightarrow> string \<Rightarrow> router \<Rightarrow> res" where
  "dispatch [] pth s = Normal s"
| "dispatch (r # rs) pth s =
     (if exec (regexp r) pth \<noteq> None then hit_rule r pth s else dispatch rs pth s)"

text \<open>
  \<^verbatim>\<open>watch.run(options)\<close>. An empty \<^verbatim>\<open>options.url\<close> is falsy, and the host's location
  is used. Reading \<^verbatim>\<open>watching.length\<close> throws a TypeError when \<^verbatim>\<open>_watching\<close> was
  never written. The first run that gets past the loop installs the host's navigation
  hooks (not modelled: they only call \<^verbatim>\<open>watch.run()\<close> again later), emits
  \<^verbatim>\<open>watching\<close>, sets \<^verbatim>\<open>running\<close> and calls \<^verbatim>\<open>options.callback\<close> if it is a function.
  An error thrown by either \<^verbatim>\<open>emit\<close> ends the run where it is thrown.
\<close>

record options =
  url :: "string option"
  callback :: jsval

definition no_options :: options where
  "no_options = \<lparr>url = None, callback = VUndefined\<rparr>"

definition first_run :: "options \<Rightarrow> router \<Rightarrow> res" where
  "first_run opts s =
     (if \<not> running s then
        (case emit ''watching'' [] s of
           Throws e s1 \<Rightarrow> Throws e s1
         | Normal s1 \<Rightarrow>
             (let s2 = s1\<lparr>running := True\<rparr>
              in case callback opts of
                   VFun f \<Rightarrow> Normal (logged (CallbackCalled (fid f)) s2)
                 | _ \<Rightarrow> Normal s2))
      else Normal s)"

definition run :: "options \<Rightarrow> router \<Rightarrow> res" where
  "run opts s =
     (let pth = (case url opts of
                   Some u \<Rightarrow> if u \<noteq> [] then u else location s
                 | None \<Rightarrow> location s)
      in case emit ''statechange'' [pth] s of
           Throws e s1 \<Rightarrow> Throws e s1
         | Normal s1 \<Rightarrow>
             (case watching s1 of
                None \<Rightarrow> Throws TypeError s1
              | Some rs \<Rightarrow>
                  (case dispatch rs pth s1 of
                     Normal s2 \<Rightarrow> first_run opts s2
                   | Throws e s2 \<Rightarrow> Throws e s2)))"

text \<open>
  \<^verbatim>\<open>watch(...args)\<close>. With one argument the branch is chosen by \<^verbatim>\<open>typeof path\<close>: an
  object is enumerated (a regular expression has no enumerable property; the indices of
  an array or of a \<^verbatim>\<open>String\<close> object are not modelled), a string is dispatched, and
  anything else is the usage error.
\<close>

definition watch :: "jsval list \<Rightarrow> router \<Rightarrow> res" where
  "watch args s =
     (case args of
        [] \<Rightarrow> run no_options s
      | [pth] \<Rightarrow>
          (case pth of
             VObj props \<Rightarrow> watch_object props s
           | VRegExp re \<Rightarrow> Normal s
           | VArr a \<Rightarrow> Throws Unmodelled s
           | VStringObj t \<Rightarrow> Throws Unmodelled s
           | VStr t \<Rightarrow> run \<lparr>url = Some t, callback = VUndefined\<rparr> s
           | _ \<Rightarrow> Throws UsageError s)
      | pth # hnd # _ \<Rightarrow> register pth hnd s)"

definition state_of :: "res \<Rightarrow> router" where
  "state_of r = (case r of Normal s \<Rightarrow> s | Throws e s \<Rightarrow> s)"

text \<open>
  Reading an own property of \<^verbatim>\<open>ctx.params\<close>; a name that is neither an own
  property nor inherited reads as \<^verbatim>\<open>undefined\<close>.
\<close>

definition param :: "ctx \<Rightarrow> string \<Rightarrow> string option" where
  "param c k = obj_get (params c) k"

section \<open>Notions used to state the properties\<close>

text \<open>
  The characters with a meaning of their own in a pattern of the host's regular
  expressions; equality of strings up to the case of letters; the expression that
  \<^verbatim>\<open>((#.+)?)\<close> denotes when its groups are numbered \<open>k\<close> and \<open>k + 1\<close>; the state a
  match attempt starts from; and a state moved \<open>n\<close> characters ahead.
\<close>

definition metachar :: "char \<Rightarrow> bool" where
  "metachar c = (c \<in> set (backslash # ''^$.*+?()[]{}|''))"

definition ci_eq :: "string \<Rightarrow> string \<Rightarrow> bool" where
  "ci_eq a b = (map to_upper a = map to_upper b)"

definition hash_tail :: "nat \<Rightarrow> regex" where
  "hash_tail k =
     RGroup k (ROpt True (RGroup (Suc k) (RSeq (RChar (CHR ''#'')) (RPlus True RAny))))"

definition start_state :: "nat \<Rightarrow> string \<Rightarrow> mstate" where
  "start_state i s = \<lparr>pos = i, rest = s, caps = (\<lambda>_. None)\<rparr>"

definition skip :: "nat \<Rightarrow> mstate \<Rightarrow> mstate" where
  "skip n x = x\<lparr>pos := pos x + n, rest := drop n (rest x)\<rparr>"

text \<open>
  The calls a dispatch is expected to log when every middleware calls its continuation
  at most once: the middlewares in order, each after the one before it has called its
  continuation, up to the first that does not; the handler after the last one has.
\<close>

fun expected_chain :: "jsfun list \<Rightarrow> ctx \<Rightarrow> nat \<Rightarrow> jsfun \<Rightarrow> event list" where
  "expected_chain [] c k h = [HandlerCalled (fid h) c]"
| "expected_chain (f # fs) c k h =
     MiddlewareCalled k (fid f) #
       (if calls_next f c = 0 then [] else NextCalled k # expected_chain fs c (Suc k) h)"

text \<open>
  A router is \<open>quiet\<close> for an event type when no listener is registered for it. The
  events that a dispatch may log on behalf of the rule \<open>r\<close> for the path \<open>pth\<close>: any
  call of a middleware, of a continuation, of a redirect closure or of the callback,
  but a call of a handler only if it is the handler of \<open>r\<close>, with the context that
  \<^verbatim>\<open>paramsParser\<close> builds from \<open>r\<close> and \<open>pth\<close> (\<open>by_handler\<close> is the same with the
  handler and the context given). \<open>first_run_calls\<close> is the call of
  \<^verbatim>\<open>options.callback\<close> that ends the first run of a router.
\<close>

definition quiet :: "router \<Rightarrow> string \<Rightarrow> bool" where
  "quiet s ty = (case listeners_of s ty of None \<Rightarrow> True | Some hs \<Rightarrow> hs = [])"



definition first_run_calls :: "options \<Rightarrow> router \<Rightarrow> event list" where
  "first_run_calls opts s =
     (if running s \<or> \<not> quiet s ''watching'' then []
      else (case callback opts of VFun g \<Rightarrow> [CallbackCalled (fid g)] | _ \<Rightarrow> []))"

text \<open>
  The way a route pattern reads, from left to right: a run of slashes followed by a
  colon and an identifier is a parameter (\<open>Param\<close>, with its name); a run of slashes
  followed by a colon that no identifier follows is only the opening of a group
  (\<open>Open\<close>); every other character stands for itself (\<open>Lit\<close>). An identifier is
  the longest run of the characters that \<^verbatim>\<open>\w\<close> matches. \<open>part_names\<close> are the
  names of the parameters in that order, and \<open>part_source\<close> is the text that stands
  for a part in the source of the regular expression: a parameter becomes the segment
  \<^verbatim>\<open>(?:/?([^/]+)?)\<close>.
\<close>

datatype part = Lit char | Open | Param string

function pattern_parts :: "string \<Rightarrow> part list" where
  "pattern_parts [] = []"
| "pattern_parts (c # cs) =
     (let after = dropWhile (\<lambda>d. d = CHR ''/'') (c # cs)
      in if c = CHR ''/'' \<and> after \<noteq> [] \<and> hd after = CHR '':'' then
           (let name = takeWhile is_word (tl after)
            in if name = [] then Open # pattern_parts (tl after)
               else Param name # pattern_parts (dropWhile is_word (tl after)))
         else Lit c # pattern_parts cs)"
  by pat_completeness auto
termination
proof (relation "measure length", goal_cases)
  case 1
  then show ?case by simp
next
  case (2 c cs after name)
  have "length (dropWhile (\<lambda>d. d = CHR ''/'') (c # cs)) \<le> length (c # cs)"
    by (rule length_dropWhile_le)
  with 2 show ?case by (cases "dropWhile (\<lambda>d. d = CHR ''/'') (c # cs)") auto
next
  case (3 c cs after name)
  have "length (dropWhile (\<lambda>d. d = CHR ''/'') (c # cs)) \<le> length (c # cs)"
    by (rule length_dropWhile_le)
  moreover have "length (dropWhile is_word (tl after)) \<le> length (tl after)"
    by (rule length_dropWhile_le)
  ultimately show ?case using 3 by (cases "dropWhile (\<lambda>d. d = CHR ''/'') (c # cs)") auto
next
  case (4 c cs after)
  then show ?case by simp
qed

fun part_source :: "part \<Rightarrow> string" where
  "part_source (Lit c) = [c]"
| "part_source Open = ''(?:''"
| "part_source (Param n) = ''(?:/?([^/]+)?)''"

fun part_names :: "part list \<Rightarrow> string list" where
  "part_names [] = []"
| "part_names (Param n # ps) = n # part_names ps"
| "part_names (_ # ps) = part_names ps"

abbreviation parts_source :: "part list \<Rightarrow> string" where
  "parts_source ps \<equiv> concat (map part_source ps)"

text \<open>
  The capturing groups of an expression with what each encloses, in the order of their
  opening parentheses; and what the group of a parameter encloses, \<^verbatim>\<open>[^/]+\<close>.
\<close>

fun groups_of :: "regex \<Rightarrow> (nat \<times> regex) list" where
  "groups_of (RSeq a b) = groups_of a @ groups_of b"
| "groups_of (RAlt a b) = groups_of a @ groups_of b"
| "groups_of (RGroup k r) = (k, r) # groups_of r"
| "groups_of (RStar g r) = groups_of r"
| "groups_of (RPlus g r) = groups_of r"
| "groups_of (ROpt g r) = groups_of r"
| "groups_of (RRep mn mx g r) = groups_of r"
| "groups_of _ = []"

definition param_body :: regex where
  "param_body = RPlus True (RClass True [CChar (CHR ''/'')])"

text \<open>
  Notions used in the proofs about \<^verbatim>\<open>pathToRegExp\<close>. The first \<^verbatim>\<open>replace\<close> leaves
  \<open>part_rewritten\<close> for each part; \<open>is_separator\<close> is the class \<^verbatim>\<open>[\/\(]\<close> of its
  pattern. A character is plain when it opens no group, class or escape. The tokens of
  the source come in blocks: a token that opens and closes nothing (\<open>flat_token\<close>),
  the opening of a non-capturing group, or the nine tokens of a parameter segment,
  which parse to \<open>seg_regex\<close>; \<open>tail_toks\<close> are the tokens of \<^verbatim>\<open>((#.+)?)$\<close>.
  \<open>frame_groups\<close> lists the groups that a frame of the parser holds so far.
\<close>

definition is_separator :: "char \<Rightarrow> bool" where
  "is_separator d = (d = CHR ''/'' \<or> d = CHR ''('')"

fun part_rewritten :: "part \<Rightarrow> string" where
  "part_rewritten (Lit c) = [c]"
| "part_rewritten Open = ''(?:''"
| "part_rewritten (Param n) = ''(?:'' @ n"

abbreviation step1_text :: "string \<Rightarrow> string" where
  "step1_text p \<equiv> concat (map part_rewritten (pattern_parts p))"

definition plain_char :: "char \<Rightarrow> bool" where
  "plain_char c = (c \<notin> set (backslash # ''()[''))"

definition bounds_ordered :: "nat \<Rightarrow> nat option \<Rightarrow> bool" where
  "bounds_ordered mn mx = (case mx of None \<Rightarrow> True | Some m \<Rightarrow> mn \<le> m)"

datatype tblock = BFlat token | BNc | BSeg

definition seg_toks :: "token list" where
  "seg_toks = [TOpenNC, TAtom (RChar (CHR ''/'')), TQuant QOpt True, TOpen,
               TAtom (RClass True [CChar (CHR ''/'')]), TQuant QPlus True, TClose,
               TQuant QOpt True, TClose]"

fun block_toks :: "tblock \<Rightarrow> token list" where
  "block_toks (BFlat t) = [t]"
| "block_toks BNc = [TOpenNC]"
| "block_toks BSeg = seg_toks"

definition flat_token :: "token \<Rightarrow> bool" where
  "flat_token t = (case t of TAtom r \<Rightarrow> group_ids r = [] | TAssert r \<Rightarrow> group_ids r = []
             | TBar \<Rightarrow> True | TQuant q g \<Rightarrow> True | _ \<Rightarrow> False)"

fun blocks_ok :: "tblock list \<Rightarrow> part list \<Rightarrow> bool" where
  "blocks_ok tps ps =
     ((\<forall>t. BFlat t \<in> set tps \<longrightarrow> flat_token t)
      \<and> length (filter (\<lambda>b. b = BSeg) tps) = length (part_names ps)
      \<and> (BNc \<in> set tps \<longleftrightarrow> Open \<in> set ps))"

definition tail_toks :: "token list" where
  "tail_toks = [TOpen, TOpen, TAtom (RChar (CHR ''#'')), TAtom RAny, TQuant QPlus True, TClose,
                TQuant QOpt True, TClose, TAssert REol]"

definition seg_regex :: "nat \<Rightarrow> regex" where
  "seg_regex n = RSeq (ROpt True (RChar (CHR ''/''))) (ROpt True (RGroup n param_body))"

definition frame_groups :: "regex list \<Rightarrow> (regex \<times> bool) list \<Rightarrow> (nat \<times> regex) list" where
  "frame_groups alts sq = concat (map groups_of (rev alts)) @ concat (map (\<lambda>q. groups_of (fst q)) (rev sq))"

text \<open>
  Sample callbacks and routers: \<open>fn n k\<close> is a function of identity \<open>n\<close> that, as a
  middleware, calls its continuation \<open>k\<close> times; \<open>rule_a n\<close> is the rule that
  \<^verbatim>\<open>watch('/a', fn n 0)\<close> registers when the base is empty.
\<close>

definition fn :: "nat \<Rightarrow> nat \<Rightarrow> jsfun" where
  "fn n k = \<lparr>fid = n, calls_next = (\<lambda>_. k)\<rparr>"

definition rule_a :: "nat \<Rightarrow> rule" where
  "rule_a n = \<lparr>keys = [],
     regexp = \<lparr>re_ast = RSeq RBol (RSeq (RChar (CHR ''/'')) (RSeq (RChar (CHR ''a''))
                          (RSeq (hash_tail 1) REol))),
               re_groups = 2, re_ignoreCase = True\<rparr>,
     handler = HVal (VFun (fn n 0))\<rparr>"

definition two_rules :: router where
  "two_rules = state_of (watch [VStr ''/a'', VFun (fn 2 0)]
                 (state_of (watch [VStr ''/a'', VFun (fn 1 0)] (fresh []))))"

definition redirect_router :: router where
  "redirect_router = state_of (watch [VStr ''/new'', VFun (fn 1 0)]
                       (state_of (watch [VStr ''/old'', VStringObj ''/new''] (fresh []))))"

declare matcher.simps [simp del]
declare lexer.simps [simp del]
declare layer.simps [simp del]
declare pattern_parts.simps(2) [simp del]
section \<open>The regular-expression literals of the source\<close>

lemma re_sep_colon_source:
  "regexp_compile (''(['' @ [backslash] @ ''/'' @ [backslash] @ ''(]+):'') False = Inr re_sep_colon"
  by code_simp

lemma re_param_source:
  "regexp_compile ([backslash] @ ''('' @ [backslash] @ ''?:('' @ [backslash] @ ''w+)((''
      @ [backslash] @ ''(.*?'' @ [backslash] @ ''))*)'') False = Inr re_param"
  by code_simp

lemma re_paren_source:
  "regexp_compile ([backslash] @ ''(|'' @ [backslash] @ '')'') False = Inr re_paren"
  by code_simp

lemma re_star_source: "regexp_compile ([backslash] @ ''*'') False = Inr re_star"
  by code_simp

lemma re_hash_source: "regexp_compile ''^#'' False = Inr re_hash"
  by code_simp

lemma user_id_source: "regexp_source ''/user/:id'' = ''^/user(?:/?([^/]+)?)((#.+)?)$''"
  by code_simp

section \<open>Properties of the matcher\<close>

text \<open>
  A result of the matcher is the state it started from moved ahead: its remaining input
  is a suffix of the input it was given. This is why the test for an empty iteration in
  \<open>matcher\<close> may compare lengths.
\<close>

lemma advance_suffix:
  "y \<in> set (advance x) \<Longrightarrow> \<exists>u. rest x = u @ rest y \<and> pos y = pos x + length u"
  by (cases "rest x") (auto simp: advance_def)

lemma matcher_suffix:
  "y \<in> set (matcher ic r x) \<Longrightarrow> \<exists>u. rest x = u @ rest y \<and> pos y = pos x + length u"
proof (induction ic r x arbitrary: y rule: matcher.induct)
  case (1 ic x)
  then show ?case by (simp add: matcher.simps(1))
next
  case (2 ic c x)
  then show ?case
    using advance_suffix[of y x] by (auto simp: matcher.simps(2) split: list.splits if_splits)
next
  case (3 ic x)
  then show ?case
    using advance_suffix[of y x] by (auto simp: matcher.simps(3) split: list.splits if_splits)
next
  case (4 ic neg items x)
  then show ?case
    using advance_suffix[of y x] by (auto simp: matcher.simps(4) split: list.splits if_splits)
next
  case (5 ic x)
  then show ?case by (simp add: matcher.simps(5) split: if_splits)
next
  case (6 ic x)
  then show ?case by (simp add: matcher.simps(6) split: if_splits)
next
  case (7 ic a b x)
  from 7(3) obtain z where z: "z \<in> set (matcher ic a x)" and y: "y \<in> set (matcher ic b z)"
    by (auto simp: matcher.simps(7))
  from 7(1)[OF z] obtain u where u: "rest x = u @ rest z" "pos z = pos x + length u" by blast
  from 7(2)[OF z y] obtain v where v: "rest z = v @ rest y" "pos y = pos z + length v" by blast
  show ?case using u v by (intro exI[of _ "u @ v"]) simp
next
  case (8 ic a b x)
  then show ?case by (auto simp: matcher.simps(8))
next
  case (9 ic k r x)
  from 9(2) obtain z where z: "z \<in> set (matcher ic r x)" and y: "rest y = rest z" "pos y = pos z"
    by (auto simp: matcher.simps(9))
  from 9(1)[OF z] show ?case using y by simp
next
  case (10 ic g r x)
  have rc: "rest (reset_caps r x) = rest x" "pos (reset_caps r x) = pos x"
    by (simp_all add: reset_caps_def)
  from 10(3) have "y \<in> set (let more = concat (map (\<lambda>y. if length (rest y) < length (rest x)
                                     then matcher ic (RStar g r) y else [])
                             (matcher ic r (reset_caps r x)))
      in if g then more @ [x] else x # more)"
    by (subst (asm) matcher.simps(10)) simp
  then consider "y = x"
    | z where "z \<in> set (matcher ic r (reset_caps r x))" "length (rest z) < length (rest x)"
        "y \<in> set (matcher ic (RStar g r) z)"
    by (auto simp: Let_def split: if_splits)
  then show ?case
  proof cases
    case 1
    then show ?thesis by simp
  next
    case 2
    from 10(1)[OF 2(1)] obtain u where u: "rest x = u @ rest z" "pos z = pos x + length u"
      using rc by auto
    from 10(2)[OF 2(1) 2(2) 2(3)] obtain v where v: "rest z = v @ rest y" "pos y = pos z + length v"
      by blast
    show ?thesis using u v by (intro exI[of _ "u @ v"]) simp
  qed
next
  case (11 ic g r x)
  have rc: "rest (reset_caps r x) = rest x" "pos (reset_caps r x) = pos x"
    by (simp_all add: reset_caps_def)
  from 11(3) obtain z where z: "z \<in> set (matcher ic r (reset_caps r x))"
      and y: "y \<in> set (matcher ic (RStar g r) z)"
    by (auto simp: matcher.simps(11))
  from 11(1)[OF z] obtain u where u: "rest x = u @ rest z" "pos z = pos x + length u"
    using rc by auto
  from 11(2)[OF z y] obtain v where v: "rest z = v @ rest y" "pos y = pos z + length v" by blast
  show ?case using u v by (intro exI[of _ "u @ v"]) simp
next
  case (12 ic g r x)
  have rc: "rest (reset_caps r x) = rest x" "pos (reset_caps r x) = pos x"
    by (simp_all add: reset_caps_def)
  from 12(2) have "y = x \<or> y \<in> set (matcher ic r (reset_caps r x))"
    by (auto simp: matcher.simps(12) Let_def split: if_splits)
  then show ?case using 12(1)[of y] rc by auto
next
  case (13 ic mn mx g r x)
  have rc: "rest (reset_caps r x) = rest x" "pos (reset_caps r x) = pos x"
    by (simp_all add: reset_caps_def)
  let ?again = "RRep (mn - 1) (map_option (\<lambda>m. m - 1) mx) g r"
  show ?case
  proof (cases "mx = Some 0")
    case True
    then show ?thesis using 13(5) by (subst (asm) matcher.simps(13)) simp
  next
    case False
    show ?thesis
    proof (cases "0 < mn")
      case True
      from 13(5) obtain z where z: "z \<in> set (matcher ic r (reset_caps r x))"
          and y: "y \<in> set (matcher ic ?again z)"
        using False True by (subst (asm) matcher.simps(13)) auto
      from 13(1)[OF False True z] obtain u where u: "rest x = u @ rest z" "pos z = pos x + length u"
        using rc by auto
      from 13(2)[OF False True z y] obtain v where v: "rest z = v @ rest y" "pos y = pos z + length v"
        by blast
      show ?thesis using u v by (intro exI[of _ "u @ v"]) simp
    next
      case zero: False
      from 13(5) consider "y = x"
        | z where "z \<in> set (matcher ic r (reset_caps r x))" "length (rest z) < length (rest x)"
            "y \<in> set (matcher ic ?again z)"
        using False zero by (subst (asm) matcher.simps(13)) (auto simp: Let_def split: if_splits)
      then show ?thesis
      proof cases
        case 1
        then show ?thesis by simp
      next
        case 2
        from 13(3)[OF False zero 2(1)] obtain u where u: "rest x = u @ rest z" "pos z = pos x + length u"
          using rc by auto
        from 13(4)[OF False zero 2(1) 2(2) 2(3)] obtain v where
          v: "rest z = v @ rest y" "pos y = pos z + length v"
          by blast
        show ?thesis using u v by (intro exI[of _ "u @ v"]) simp
      qed
    qed
  qed
qed

subsection \<open>Where the literals of the compiler cannot match\<close>

lemma try_at_None: "try_at re i s = None \<longleftrightarrow> matcher (re_ignoreCase re) (re_ast re) (start_state i s) = []"
  by (simp add: try_at_def start_state_def split: list.splits)

lemma rchar_fails:
  "rest x = [] \<or> canonicalize ic (hd (rest x)) \<noteq> canonicalize ic c \<Longrightarrow> matcher ic (RChar c) x = []"
  by (cases "rest x") (auto simp: matcher.simps(2))

lemma rchar_absent:
  assumes "c \<notin> set (rest x)" shows "matcher False (RChar c) x = []"
  using assms by (cases "rest x") (auto simp: matcher.simps(2) canonicalize_def)

lemma seq_then_absent:
  assumes "c \<notin> set (rest x)"
  shows "matcher False (RSeq a (RChar c)) x = []"
proof -
  have "matcher False (RChar c) y = []" if "y \<in> set (matcher False a x)" for y
  proof -
    from matcher_suffix[OF that] obtain u where "rest x = u @ rest y" by blast
    with assms have "c \<notin> set (rest y)" by auto
    then show ?thesis by (rule rchar_absent)
  qed
  then show ?thesis by (simp add: matcher.simps(7))
qed

lemma sep_colon_none: "CHR '':'' \<notin> set s \<Longrightarrow> try_at re_sep_colon i s = None"
  by (simp add: try_at_None re_sep_colon_def seq_then_absent start_state_def)

lemma seq_first_fails: "matcher ic a x = [] \<Longrightarrow> matcher ic (RSeq a b) x = []"
  by (simp add: matcher.simps(7))

lemma param_none: "s = [] \<or> hd s \<noteq> CHR ''('' \<Longrightarrow> try_at re_param i s = None"
  by (auto simp: try_at_None re_param_def start_state_def canonicalize_def
           intro!: seq_first_fails rchar_fails)

lemma star_none: "s = [] \<or> hd s \<noteq> CHR ''*'' \<Longrightarrow> try_at re_star i s = None"
  by (auto simp: try_at_None re_star_def start_state_def canonicalize_def intro!: rchar_fails)

lemma scan_none:
  "(\<And>i s'. suffix s' s \<Longrightarrow> try_at re i s' = None) \<Longrightarrow> scan_g re i 0 s = map Inl s"
proof (induction s arbitrary: i)
  case Nil
  then show ?case by simp
next
  case (Cons c cs)
  have "try_at re i (c # cs) = None" using Cons.prems by simp
  moreover have "scan_g re (Suc i) 0 cs = map Inl cs"
    using Cons.prems by (intro Cons.IH) (simp add: suffix_Cons)
  ultimately show ?case by simp
qed

lemma pieces_text_Inl: "pieces_text f (map Inl s) = s"
  by (induction s) (simp_all add: pieces_text_def)

lemma replace_g_none:
  "(\<And>i s'. suffix s' s \<Longrightarrow> try_at re i s' = None) \<Longrightarrow> replace_g re f s = s"
  by (simp add: replace_g_def scan_none pieces_text_Inl)

lemma suffix_notin: "suffix s' s \<Longrightarrow> c \<notin> set s \<Longrightarrow> c \<notin> set s'"
  by (auto simp: suffix_def)

lemma suffix_hd_notin: "suffix s' s \<Longrightarrow> c \<notin> set s \<Longrightarrow> s' = [] \<or> hd s' \<noteq> c"
  by (cases s') (auto simp: suffix_def)

lemma sep_colon_id: "CHR '':'' \<notin> set s \<Longrightarrow> replace_g re_sep_colon f s = s"
  by (intro replace_g_none sep_colon_none) (rule suffix_notin)

lemma param_id: "CHR ''('' \<notin> set s \<Longrightarrow> replace_g re_param f s = s"
  by (intro replace_g_none param_none) (rule suffix_hd_notin)

lemma star_id: "CHR ''*'' \<notin> set s \<Longrightarrow> replace_g re_star f s = s"
  by (intro replace_g_none star_none) (rule suffix_hd_notin)

lemma replace_first_id: "CHR '')'' \<notin> set s \<Longrightarrow> replace_first ''))'' r s = s"
  by (induction s) (auto simp: prefix_def)

lemma exec_from_bol: "re_ast re = RSeq RBol r \<Longrightarrow> exec_from re (Suc i) s = None"
  by (induction s arbitrary: i)
     (simp_all add: try_at_def matcher.simps(5) matcher.simps(7) split: list.splits)

lemma isHashRouter_iff: "isHashRouter p \<longleftrightarrow> (p \<noteq> [] \<and> hd p = CHR ''#'')"
proof (cases p)
  case Nil
  then show ?thesis
    by (simp add: isHashRouter_def re_test_def exec_def try_at_def re_hash_def
        matcher.simps(2,5,7))
next
  case (Cons c cs)
  have "exec_from re_hash (Suc 0) cs = None"
    by (rule exec_from_bol) (simp add: re_hash_def)
  then show ?thesis using Cons
    by (simp add: isHashRouter_def re_test_def exec_def try_at_def re_hash_def
        matcher.simps(2,5,7) advance_def canonicalize_def split: list.splits)
qed

lemma regexp_source_plain:
  assumes "\<forall>c\<in>set p. \<not> metachar c \<and> c \<noteq> CHR '':''"
  shows "regexp_source p = (if p \<noteq> [] \<and> hd p = CHR ''#'' then [] else ''^'') @ p @ ''((#.+)?)$''"
proof -
  have "CHR '':'' \<notin> set p" "CHR ''('' \<notin> set p" "CHR '')'' \<notin> set p" "CHR ''*'' \<notin> set p"
    using assms by (auto simp: metachar_def)
  then show ?thesis
    by (simp add: regexp_source_def sep_colon_id param_id star_id replace_first_id isHashRouter_iff)
qed

subsection \<open>Parsing and matching a literal followed by the hash suffix\<close>

lemma lexer_plain_char:
  "\<not> metachar c \<Longrightarrow> lexer LNormal (c # cs) = cons_tok (TAtom (RChar c)) (lexer LNormal cs)"
  by (simp add: lexer.simps(3) metachar_def quant_of_def backslash_def)

lemma lexer_plain:
  "\<forall>c\<in>set p. \<not> metachar c \<Longrightarrow>
   lexer LNormal (p @ s) =
     (case lexer LNormal s of Inl e \<Rightarrow> Inl e | Inr ts \<Rightarrow> Inr (map (\<lambda>c. TAtom (RChar c)) p @ ts))"
proof (induction p)
  case Nil
  then show ?case by (simp split: sum.splits)
next
  case (Cons c p)
  then show ?case by (simp add: lexer_plain_char cons_tok_def split: sum.splits)
qed

lemma lexer_hash_tail:
  "lexer LNormal ''((#.+)?)$'' =
     Inr [TOpen, TOpen, TAtom (RChar (CHR ''#'')), TAtom RAny, TQuant QPlus True, TClose,
          TQuant QOpt True, TClose, TAssert REol]"
  by code_simp

lemma parse_atoms:
  "parse_tokens (map (\<lambda>c. TAtom (RChar c)) p @ ts) ((cap, alts, sq) # st) n =
   parse_tokens ts ((cap, alts, rev (map (\<lambda>c. (RChar c, True)) p) @ sq) # st) n"
  by (induction p arbitrary: sq) simp_all

lemma seq_of_Cons: "rs \<noteq> [] \<Longrightarrow> seq_of (r # rs) = RSeq r (seq_of rs)"
  by (cases rs) simp_all

lemma compile_plain:
  assumes "\<forall>c\<in>set p. \<not> metachar c"
  shows "regexp_compile (''^'' @ p @ ''((#.+)?)$'') ic =
           Inr \<lparr>re_ast = RSeq RBol (seq_of (map RChar p @ [hash_tail 1, REol])),
                re_groups = 2, re_ignoreCase = ic\<rparr>"
    and "regexp_compile (p @ ''((#.+)?)$'') ic =
           Inr \<lparr>re_ast = seq_of (map RChar p @ [hash_tail 1, REol]),
                re_groups = 2, re_ignoreCase = ic\<rparr>"
proof -
  have l: "lexer LNormal (p @ ''((#.+)?)$'') =
        Inr (map (\<lambda>c. TAtom (RChar c)) p @
          [TOpen, TOpen, TAtom (RChar (CHR ''#'')), TAtom RAny, TQuant QPlus True, TClose,
           TQuant QOpt True, TClose, TAssert REol])"
    using lexer_plain[OF assms, of "''((#.+)?)$''"] by (simp add: lexer_hash_tail)
  have m: "map fst (map (\<lambda>c. (RChar c, True)) p) = map RChar p" by (simp add: comp_def)
  show "regexp_compile (''^'' @ p @ ''((#.+)?)$'') ic =
           Inr \<lparr>re_ast = RSeq RBol (seq_of (map RChar p @ [hash_tail 1, REol])),
                re_groups = 2, re_ignoreCase = ic\<rparr>"
    using l
    by (simp add: regexp_compile_def lexer.simps(3) backslash_def cons_tok_def parse_atoms
        close_frame_def apply_quant_def hash_tail_def rev_map comp_def seq_of_Cons)
  show "regexp_compile (p @ ''((#.+)?)$'') ic =
           Inr \<lparr>re_ast = seq_of (map RChar p @ [hash_tail 1, REol]),
                re_groups = 2, re_ignoreCase = ic\<rparr>"
    using l
    by (simp add: regexp_compile_def parse_atoms
        close_frame_def apply_quant_def hash_tail_def rev_map comp_def)
qed

lemma skip_0: "skip 0 x = x" by (simp add: skip_def)

lemma skip_Suc: "rest x = d # ds \<Longrightarrow> skip n (x\<lparr>pos := Suc (pos x), rest := ds\<rparr>) = skip (Suc n) x"
  by (simp add: skip_def)

lemma matcher_lits:
  "rs \<noteq> [] \<Longrightarrow>
   matcher ic (seq_of (map RChar p @ rs)) x =
     (if length p \<le> length (rest x)
         \<and> map (canonicalize ic) (take (length p) (rest x)) = map (canonicalize ic) p
      then matcher ic (seq_of rs) (skip (length p) x) else [])"
proof (induction p arbitrary: x)
  case Nil
  then show ?case by (simp add: skip_0)
next
  case (Cons c p)
  have s: "seq_of (RChar c # map RChar p @ rs) = RSeq (RChar c) (seq_of (map RChar p @ rs))"
    using Cons.prems by (simp add: seq_of_Cons)
  show ?case
  proof (cases "rest x")
    case Nil
    then show ?thesis by (simp add: s matcher.simps(7) matcher.simps(2))
  next
    case (Cons d ds)
    then show ?thesis
      using Cons.IH[OF Cons.prems, of "x\<lparr>pos := Suc (pos x), rest := ds\<rparr>"]
      by (simp add: s matcher.simps(7) matcher.simps(2) advance_def skip_Suc)
  qed
qed

lemma reset_any: "reset_caps RAny x = x"
  by (simp add: reset_caps_def)

lemma dot_star_ends:
  "rest x = s \<Longrightarrow>
   (\<exists>z\<in>set (matcher ic (RStar g RAny) x). rest z = []) \<longleftrightarrow> (\<forall>c\<in>set s. \<not> is_line_terminator c)"
proof (induction s arbitrary: x)
  case Nil
  then show ?case
    by (subst matcher.simps(10)) (simp add: reset_any matcher.simps(3))
next
  case (Cons d ds)
  let ?x' = "x\<lparr>pos := Suc (pos x), rest := ds\<rparr>"
  have ih: "(\<exists>z\<in>set (matcher ic (RStar g RAny) ?x'). rest z = []) \<longleftrightarrow> (\<forall>c\<in>set ds. \<not> is_line_terminator c)"
    by (rule Cons.IH) simp
  show ?case
    using Cons.prems ih
    by (subst matcher.simps(10)) (auto simp: reset_any matcher.simps(3) advance_def)
qed

lemma dot_plus_ends:
  "(\<exists>z\<in>set (matcher ic (RPlus g RAny) x). rest z = []) \<longleftrightarrow>
     (rest x \<noteq> [] \<and> (\<forall>c\<in>set (rest x). \<not> is_line_terminator c))"
proof (cases "rest x")
  case Nil
  then show ?thesis by (simp add: matcher.simps(11) matcher.simps(3) reset_any)
next
  case (Cons d ds)
  let ?x' = "x\<lparr>pos := Suc (pos x), rest := ds\<rparr>"
  have "(\<exists>z\<in>set (matcher ic (RStar g RAny) ?x'). rest z = []) \<longleftrightarrow> (\<forall>c\<in>set ds. \<not> is_line_terminator c)"
    by (rule dot_star_ends) simp
  then show ?thesis using Cons
    by (auto simp: matcher.simps(11) matcher.simps(3) reset_any advance_def)
qed

lemma to_upper_hash: "to_upper d = CHR ''#'' \<longleftrightarrow> d = CHR ''#''"
proof -
  have lt: "(of_char d :: nat) < 256" by (rule nat_of_char_less_256)
  have "to_upper d = CHR ''#'' \<Longrightarrow> d = CHR ''#''"
  proof (cases "(97 \<le> (of_char d :: nat) \<and> (of_char d :: nat) \<le> 122)
                 \<or> (224 \<le> (of_char d :: nat) \<and> (of_char d :: nat) \<le> 254 \<and> (of_char d :: nat) \<noteq> 247)")
    case True
    assume "to_upper d = CHR ''#''"
    with True have "char_of ((of_char d :: nat) - 32) = CHR ''#''"
      by (simp add: to_upper_def Let_def)
    then have "(of_char (char_of ((of_char d :: nat) - 32) :: char) :: nat) = of_char (CHR ''#'')"
      by simp
    then have "((of_char d :: nat) - 32) mod 256 = 35" by (simp add: of_char_of)
    with True lt show ?thesis by auto
  next
    case False
    assume "to_upper d = CHR ''#''"
    with False show ?thesis by (auto simp: to_upper_def Let_def split: if_splits)
  qed
  moreover have "to_upper (CHR ''#'') = CHR ''#''" by (simp add: to_upper_def)
  ultimately show ?thesis by blast
qed

lemma canon_hash: "canonicalize True d = canonicalize True (CHR ''#'') \<longleftrightarrow> d = CHR ''#''"
  using to_upper_hash[of d] to_upper_hash[of "CHR ''#''"] by (simp add: canonicalize_def)

lemma hash_tail_ends:
  "matcher True (RSeq (hash_tail k) REol) x \<noteq> [] \<longleftrightarrow>
     (rest x = [] \<or> (\<exists>f. rest x = CHR ''#'' # f \<and> f \<noteq> [] \<and> (\<forall>c\<in>set f. \<not> is_line_terminator c)))"
proof -
  let ?frag = "RSeq (RChar (CHR ''#'')) (RPlus True RAny)"
  let ?x = "reset_caps (RGroup (Suc k) ?frag) x"
  have rx: "rest ?x = rest x" by (simp add: reset_caps_def)
  have eol: "concat (map (matcher True REol) zs) \<noteq> [] \<longleftrightarrow> (\<exists>z\<in>set zs. rest z = [])" for zs
    by (induction zs) (auto simp: matcher.simps(6))
  have frag: "(\<exists>z\<in>set (matcher True ?frag y). rest z = []) \<longleftrightarrow>
      (\<exists>f. rest y = CHR ''#'' # f \<and> f \<noteq> [] \<and> (\<forall>c\<in>set f. \<not> is_line_terminator c))" for y
  proof (cases "rest y")
    case Nil
    then show ?thesis by (simp add: matcher.simps(7) matcher.simps(2))
  next
    case (Cons d ds)
    show ?thesis
      using Cons dot_plus_ends[of True True "y\<lparr>pos := Suc (pos y), rest := ds\<rparr>"]
      by (auto simp: matcher.simps(7) matcher.simps(2) advance_def canon_hash)
  qed
  have grp: "(\<exists>z\<in>set (matcher True (RGroup j r) y). rest z = []) \<longleftrightarrow>
             (\<exists>z\<in>set (matcher True r y). rest z = [])" for j r y
    by (auto simp: matcher.simps(9))
  have opt: "(\<exists>z\<in>set (matcher True (ROpt True (RGroup (Suc k) ?frag)) x). rest z = []) \<longleftrightarrow>
      (rest x = [] \<or> (\<exists>f. rest x = CHR ''#'' # f \<and> f \<noteq> [] \<and> (\<forall>c\<in>set f. \<not> is_line_terminator c)))"
    using frag[of ?x] grp[of "Suc k" ?frag ?x] rx
    by (auto simp: matcher.simps(12) Let_def)
  show ?thesis
    unfolding hash_tail_def matcher.simps(7) eol grp opt ..
qed

lemma param_keys_none: "CHR '':'' \<notin> set p \<Longrightarrow> CHR ''('' \<notin> set p \<Longrightarrow> param_keys p = []"
proof -
  assume a: "CHR '':'' \<notin> set p" "CHR ''('' \<notin> set p"
  have "scan_g re_param 0 0 p = map Inl p"
    using a(2) by (intro scan_none param_none) (rule suffix_hd_notin)
  moreover have "pieces_hits (map Inl s) = []" for s :: string
    by (induction s) (simp_all add: pieces_hits_def List.map_filter_simps)
  ultimately show ?thesis using a(1) by (simp add: param_keys_def sep_colon_id)
qed

lemma re_test_anchored:
  assumes "re_ast re = RSeq RBol r"
  shows "re_test re s \<longleftrightarrow> matcher (re_ignoreCase re) r (start_state 0 s) \<noteq> []"
proof -
  have t: "try_at re 0 s \<noteq> None \<longleftrightarrow> matcher (re_ignoreCase re) r (start_state 0 s) \<noteq> []"
    using assms by (simp add: try_at_None matcher.simps(7) matcher.simps(5) start_state_def)
  have "exec_from re 0 s \<noteq> None \<longleftrightarrow> try_at re 0 s \<noteq> None"
    using exec_from_bol[OF assms] by (cases s) (auto split: option.splits)
  then show ?thesis using t by (simp add: re_test_def exec_def)
qed

lemma literal_match_iff:
  "matcher True (seq_of (map RChar p @ [hash_tail k, REol])) (start_state i s) \<noteq> [] \<longleftrightarrow>
     (ci_eq s p \<or> (\<exists>f. f \<noteq> [] \<and> (\<forall>ch\<in>set f. \<not> is_line_terminator ch)
                    \<and> ci_eq (take (length p) s) p \<and> drop (length p) s = CHR ''#'' # f))"
proof -
  have c: "canonicalize True = to_upper" by (simp add: canonicalize_def fun_eq_iff)
  have r: "rest (skip n (start_state i s)) = drop n s" for n
    by (simp add: skip_def start_state_def)
  have e: "ci_eq s p \<longleftrightarrow> length p \<le> length s \<and> ci_eq (take (length p) s) p \<and> drop (length p) s = []"
  proof
    assume "ci_eq s p"
    then have "map to_upper s = map to_upper p" by (simp add: ci_eq_def)
    then have "length s = length p" by (rule map_eq_imp_length_eq)
    with \<open>ci_eq s p\<close> show "length p \<le> length s \<and> ci_eq (take (length p) s) p \<and> drop (length p) s = []"
      by simp
  next
    assume a: "length p \<le> length s \<and> ci_eq (take (length p) s) p \<and> drop (length p) s = []"
    then have "take (length p) s = s" by simp
    with a show "ci_eq s p" by simp
  qed
  have l: "ci_eq (take (length p) s) p \<Longrightarrow> length p \<le> length s"
  proof -
    assume "ci_eq (take (length p) s) p"
    then have "length (take (length p) s) = length p"
      unfolding ci_eq_def by (rule map_eq_imp_length_eq)
    then show ?thesis by simp
  qed
  have r0: "rest (start_state i s) = s" by (simp add: start_state_def)
  have step: "matcher True (seq_of (map RChar p @ [hash_tail k, REol])) (start_state i s) \<noteq> [] \<longleftrightarrow>
      (length p \<le> length s \<and> ci_eq (take (length p) s) p \<and>
       (drop (length p) s = [] \<or>
        (\<exists>f. drop (length p) s = CHR ''#'' # f \<and> f \<noteq> [] \<and> (\<forall>ch\<in>set f. \<not> is_line_terminator ch))))"
    by (subst matcher_lits) (auto simp: c r r0 hash_tail_ends ci_eq_def)
  show ?thesis
    unfolding step using e l by blast
qed



subsection \<open>Scanning with a global regular expression\<close>

lemma pieces_text_Cons:
  "pieces_text f (Inl c # ps) = c # pieces_text f ps"
  "pieces_text f (Inr m # ps) = f m @ pieces_text f ps"
  "pieces_text f [] = []"
  by (simp_all add: pieces_text_def)

lemma pieces_hits_Cons:
  "pieces_hits (Inl c # ps) = pieces_hits ps"
  "pieces_hits (Inr m # ps) = m # pieces_hits ps"
  "pieces_hits [] = []"
  by (simp_all add: pieces_hits_def List.map_filter_simps)

lemma scan_skip: "k \<le> length s \<Longrightarrow> scan_g re i k s = scan_g re (i + k) 0 (drop k s)"
proof (induction k arbitrary: i s)
  case 0
  then show ?case by simp
next
  case (Suc k)
  then obtain c cs where s: "s = c # cs" by (cases s) auto
  show ?case using Suc s by simp
qed

lemma rchar_eq:
  "rest x = d # ds \<Longrightarrow>
   matcher False (RChar c) x = (if d = c then [x\<lparr>pos := Suc (pos x), rest := ds\<rparr>] else [])"
  by (simp add: matcher.simps(2) advance_def canonicalize_def)

lemma rchar_result:
  assumes "y \<in> set (matcher False (RChar c) x)"
  shows "rest x = c # rest y \<and> pos y = Suc (pos x) \<and> caps y = caps x"
proof (cases "rest x")
  case Nil
  then show ?thesis using assms by (simp add: matcher.simps(2))
next
  case (Cons d ds)
  show ?thesis
  proof (cases "d = c")
    case True
    then show ?thesis using assms Cons by (simp add: rchar_eq)
  next
    case False
    then show ?thesis using assms Cons by (simp add: rchar_eq)
  qed
qed

lemma reset_rest: "rest (reset_caps r x) = rest x" "pos (reset_caps r x) = pos x"
  by (simp_all add: reset_caps_def)

lemma constraint_none:
  assumes "CHR '')'' \<notin> set (rest x)"
  shows "matcher False (RGroup k (RSeq (RChar (CHR ''('')) (RSeq (RStar False RAny) (RChar (CHR '')''))))) x = []"
proof -
  have "matcher False (RSeq (RStar False RAny) (RChar (CHR '')''))) z = []"
    if "z \<in> set (matcher False (RChar (CHR ''('')) x)" for z
  proof -
    from rchar_result[OF that] have "rest x = CHR ''('' # rest z" by simp
    with assms have "CHR '')'' \<notin> set (rest z)" by (metis list.set_intros(2))
    then show ?thesis by (rule seq_then_absent)
  qed
  then show ?thesis by (simp add: matcher.simps(9) matcher.simps(7))
qed

lemma constraints_skipped:
  assumes "CHR '')'' \<notin> set (rest x)"
  shows "matcher False (RGroup 2 (RStar True (RGroup 3
           (RSeq (RChar (CHR ''('')) (RSeq (RStar False RAny) (RChar (CHR '')''))))))) x
         = [x\<lparr>caps := (caps x)(2 \<mapsto> [])\<rparr>]"
proof -
  let ?F = "RGroup 3 (RSeq (RChar (CHR ''('')) (RSeq (RStar False RAny) (RChar (CHR '')''))))"
  have "matcher False ?F (reset_caps ?F x) = []"
    using assms by (intro constraint_none) (simp add: reset_rest)
  then have "matcher False (RStar True ?F) x = [x]"
    by (subst matcher.simps(10)) simp
  then show ?thesis by (simp add: matcher.simps(9))
qed

lemma upt_groups: "[Suc 0..<4] = [Suc 0, 2, 3]"
  by code_simp

lemma param_replacer_plain: "group_text mt 2 = [] \<Longrightarrow> param_replacer mt = ''(?:/?([^/]+)?)''"
  by (simp add: param_replacer_def)


lemma cons_toks_Inr: "foldr cons_tok toks (Inr ts) = Inr (toks @ ts)"
  by (induction toks) (simp_all add: cons_tok_def)

lemma lexer_open_nc:
  "lexer LNormal (''(?:'' @ s) = cons_tok TOpenNC (lexer LNormal s)"
  by (simp add: lexer.simps(3) backslash_def)

lemma lexer_bol: "lexer LNormal (''^'' @ s) = cons_tok (TAssert RBol) (lexer LNormal s)"
  by (simp add: lexer.simps(3) backslash_def)

lemma lexer_param_segment:
  "lexer LNormal (''(?:/?([^/]+)?)'' @ s) =
     foldr cons_tok [TOpenNC, TAtom (RChar (CHR ''/'')), TQuant QOpt True, TOpen,
                     TAtom (RClass True [CChar (CHR ''/'')]), TQuant QPlus True, TClose,
                     TQuant QOpt True, TClose] (lexer LNormal s)"
  by (simp add: lexer.simps(3) lexer.simps(4) backslash_def quant_of_def starts_range_def)

lemma set_join: "set (join sep ps) \<subseteq> set sep \<union> (\<Union>p\<in>set ps. set p)"
  by (induction sep ps rule: join.induct) auto

lemma seq_mid_absent:
  assumes "c \<notin> set (rest x)"
  shows "matcher False (RSeq a (RSeq (RChar c) b)) x = []"
proof -
  have "matcher False (RSeq (RChar c) b) y = []" if "y \<in> set (matcher False a x)" for y
  proof -
    from matcher_suffix[OF that] obtain u where "rest x = u @ rest y" by blast
    with assms have "c \<notin> set (rest y)" by auto
    then have "matcher False (RChar c) y = []" by (rule rchar_absent)
    then show ?thesis by (rule seq_first_fails)
  qed
  then show ?thesis by (simp add: matcher.simps(7))
qed

lemma param_none_colon: "CHR '':'' \<notin> set s \<Longrightarrow> try_at re_param i s = None"
proof -
  assume a: "CHR '':'' \<notin> set s"
  let ?x = "start_state i s"
  have "matcher False (RSeq (RChar (CHR ''?'')) (RSeq (RChar (CHR '':'')) b)) y = []"
    if "y \<in> set (matcher False (RChar (CHR ''('')) ?x)" for y b
  proof -
    from matcher_suffix[OF that] obtain u where "rest ?x = u @ rest y" by blast
    with a have "CHR '':'' \<notin> set (rest y)" by (auto simp: start_state_def)
    then show ?thesis by (rule seq_mid_absent)
  qed
  then show ?thesis
    by (simp add: try_at_None re_param_def matcher.simps(7)[of _ "RChar (CHR ''('')"])
qed

lemma param_keys_no_colon: "CHR '':'' \<notin> set p \<Longrightarrow> param_keys p = []"
proof -
  assume a: "CHR '':'' \<notin> set p"
  have "scan_g re_param 0 0 p = map Inl p"
    using a by (intro scan_none param_none_colon) (rule suffix_notin)
  moreover have "pieces_hits (map Inl s) = []" for s :: string
    by (induction s) (simp_all add: pieces_hits_Cons)
  ultimately show ?thesis using a by (simp add: param_keys_def sep_colon_id)
qed

section \<open>The compiler on patterns with parameters\<close>

subsection \<open>A greedy run of a character class\<close>

text \<open>
  The two literals that look for parameters start with a greedy run of a class
  (\<^verbatim>\<open>[\/\(]+\<close>, \<^verbatim>\<open>\w+\<close>). The matcher of such a run lists every length of the run,
  longest first.
\<close>

lemma reset_cls: "reset_caps (RClass neg its) x = x"
  by (simp add: reset_caps_def)

lemma skip_skip: "skip a (skip b x) = skip (b + a) x"
  by (simp add: skip_def add.commute)

lemma skip_fields [simp]:
  "rest (skip n x) = drop n (rest x)" "pos (skip n x) = pos x + n" "caps (skip n x) = caps x"
  by (simp_all add: skip_def)

lemma rev_upt_Suc: "map f (rev [0..<Suc n]) = map (\<lambda>k. f (Suc k)) (rev [0..<n]) @ [f 0]"
proof -
  have "[0..<Suc n] = 0 # map Suc [0..<n]" by (simp add: upt_conv_Cons map_Suc_upt del: upt_Suc)
  then show ?thesis by (simp add: rev_map comp_def del: upt_Suc)
qed

lemma cls_eq:
  "rest x = d # ds \<Longrightarrow>
   matcher False (RClass False its) x =
     (if class_has False its d then [x\<lparr>pos := Suc (pos x), rest := ds\<rparr>] else [])"
  by (simp add: matcher.simps(4) advance_def)

lemma cls_star_greedy:
  "rest x = s \<Longrightarrow>
   matcher False (RStar True (RClass False its)) x
     = map (\<lambda>k. skip k x) (rev [0..<Suc (length (takeWhile (class_has False its) s))])"
proof (induction s arbitrary: x)
  case Nil
  then show ?case
    by (subst matcher.simps(10)) (simp add: reset_cls matcher.simps(4) skip_0)
next
  case (Cons d ds)
  let ?x' = "x\<lparr>pos := Suc (pos x), rest := ds\<rparr>"
  show ?case
  proof (cases "class_has False its d")
    case False
    then show ?thesis using Cons.prems
      by (subst matcher.simps(10)) (simp add: reset_cls cls_eq skip_0)
  next
    case True
    have ih: "matcher False (RStar True (RClass False its)) ?x'
           = map (\<lambda>k. skip k ?x') (rev [0..<Suc (length (takeWhile (class_has False its) ds))])"
      by (rule Cons.IH) simp
    have sk: "skip k ?x' = skip (Suc k) x" for k using Cons.prems by (simp add: skip_Suc)
    have "matcher False (RStar True (RClass False its)) x
            = matcher False (RStar True (RClass False its)) ?x' @ [x]"
      using True Cons.prems by (subst matcher.simps(10)) (simp add: reset_cls cls_eq)
    also have "\<dots> = map (\<lambda>k. skip (Suc k) x)
                       (rev [0..<Suc (length (takeWhile (class_has False its) ds))]) @ [skip 0 x]"
      by (simp only: ih sk skip_0)
    also have "\<dots> = map (\<lambda>k. skip k x)
                       (rev [0..<Suc (Suc (length (takeWhile (class_has False its) ds)))])"
      by (rule rev_upt_Suc[symmetric])
    finally show ?thesis using True Cons.prems by simp
  qed
qed

lemma cls_plus_greedy:
  "matcher False (RPlus True (RClass False its)) x
     = map (\<lambda>k. skip (Suc k) x) (rev [0..<length (takeWhile (class_has False its) (rest x))])"
proof (cases "rest x")
  case Nil
  then show ?thesis by (simp add: matcher.simps(11) matcher.simps(4) reset_cls)
next
  case (Cons d ds)
  let ?x' = "x\<lparr>pos := Suc (pos x), rest := ds\<rparr>"
  show ?thesis
  proof (cases "class_has False its d")
    case False
    then show ?thesis using Cons by (simp add: matcher.simps(11) reset_cls cls_eq)
  next
    case True
    have sk: "skip k ?x' = skip (Suc k) x" for k using Cons by (simp add: skip_Suc)
    have "matcher False (RStar True (RClass False its)) ?x'
           = map (\<lambda>k. skip k ?x') (rev [0..<Suc (length (takeWhile (class_has False its) ds))])"
      by (rule cls_star_greedy) simp
    then show ?thesis using True Cons
      by (simp add: matcher.simps(11) reset_cls cls_eq sk del: upt_Suc)
  qed
qed

subsection \<open>Where the two literals match\<close>

text \<open>
  \<^verbatim>\<open>/([\/\(]+):/\<close> matches at a position exactly when a run of separators starts
  there and a colon follows it, and then matches the run and the colon.
  \<^verbatim>\<open>/\(\?:(\w+)((\(.*?\))*)/\<close>, in a text without \<^verbatim>\<open>)\<close>, matches at \<^verbatim>\<open>(?:\<close>
  followed by an identifier, and then matches these with the whole identifier as
  group 1 and the empty string as group 2.
\<close>

lemma concat_map_first:
  "(\<And>k. k \<in> set ks \<Longrightarrow> f k = []) \<Longrightarrow> concat (map f (k0 # ks)) = f k0"
  by (induction ks) auto

lemma concat_map_none:
  "(\<And>k. k \<in> set ks \<Longrightarrow> f k = []) \<Longrightarrow> concat (map f ks) = []"
  by (induction ks) auto

lemma separator_class: "class_has False [CChar (CHR ''/''), CChar (CHR ''('')] = is_separator"
  by (auto simp: class_has_def is_separator_def fun_eq_iff)

lemma takeWhile_nth: "k < length (takeWhile P s) \<Longrightarrow> P (s ! k)"
  by (metis nth_mem set_takeWhileD takeWhile_nth)

lemma rchar_at:
  "matcher False (RChar c) x
     = (if rest x \<noteq> [] \<and> hd (rest x) = c then [skip 1 x] else [])"
  by (cases "rest x") (auto simp: matcher.simps(2) canonicalize_def advance_def skip_def)

lemma sep_colon_matches:
  fixes s i
  defines "m \<equiv> length (takeWhile is_separator s)"
  defines "x0 \<equiv> \<lparr>pos = i, rest = s, caps = (\<lambda>_. None)\<rparr>"
  shows "matcher False (re_ast re_sep_colon) x0
           = (if 0 < m \<and> drop m s \<noteq> [] \<and> hd (drop m s) = CHR '':''
              then [skip 1 ((skip m x0)\<lparr>caps := (caps x0)(1 \<mapsto> take m s)\<rparr>)] else [])"
proof -
  let ?C = "RClass False [CChar (CHR ''/''), CChar (CHR ''('')]"
  let ?g = "\<lambda>y. y\<lparr>caps := (caps y)(1 \<mapsto> take (pos y - pos x0) (rest x0))\<rparr>"
  let ?f = "\<lambda>k. matcher False (RChar (CHR '':'')) (?g (skip (Suc k) x0))"
  have plus: "matcher False (RPlus True ?C) x0 = map (\<lambda>k. skip (Suc k) x0) (rev [0..<m])"
    unfolding m_def using cls_plus_greedy[of "[CChar (CHR ''/''), CChar (CHR ''('')]" x0]
    by (simp add: separator_class x0_def)
  have all: "matcher False (re_ast re_sep_colon) x0 = concat (map ?f (rev [0..<m]))"
    by (simp add: re_sep_colon_def matcher.simps(7) matcher.simps(9) plus comp_def)
  have inner: "?f k = []" if "Suc k < m" for k
  proof -
    have "is_separator (s ! Suc k)" using that unfolding m_def by (rule takeWhile_nth)
    moreover have "Suc k < length s"
      using that unfolding m_def by (meson length_takeWhile_le less_le_trans)
    ultimately show ?thesis
      by (auto simp: rchar_at x0_def hd_drop_conv_nth is_separator_def)
  qed
  show ?thesis
  proof (cases m)
    case 0
    then show ?thesis by (simp add: all)
  next
    case (Suc n)
    have "concat (map ?f (n # rev [0..<n])) = ?f n"
      by (rule concat_map_first) (use inner Suc in auto)
    then have "matcher False (re_ast re_sep_colon) x0 = ?f n"
      using Suc by (simp add: all)
    also have "?f n = (if drop m s \<noteq> [] \<and> hd (drop m s) = CHR '':''
              then [skip 1 ((skip m x0)\<lparr>caps := (caps x0)(1 \<mapsto> take m s)\<rparr>)] else [])"
      using Suc by (simp add: rchar_at x0_def skip_def)
    finally show ?thesis using Suc by simp
  qed
qed

lemma sep_colon_try:
  fixes s
  defines "m \<equiv> length (takeWhile is_separator s)"
  shows "0 < m \<Longrightarrow> drop m s \<noteq> [] \<Longrightarrow> hd (drop m s) = CHR '':'' \<Longrightarrow>
           \<exists>mt. try_at re_sep_colon i s = Some mt \<and> m_text mt = take (Suc m) s"
    and "\<not> (0 < m \<and> drop m s \<noteq> [] \<and> hd (drop m s) = CHR '':'') \<Longrightarrow> try_at re_sep_colon i s = None"
  using sep_colon_matches[of i s]
  by (auto simp: try_at_def m_def re_sep_colon_def skip_def)

lemma word_class: "class_has False [CWord] = is_word"
  by (auto simp: class_has_def fun_eq_iff)

lemma re_param_fields: "re_ignoreCase re_param = False" "re_groups re_param = 3"
  by (simp_all add: re_param_def)

lemma param_matches:
  fixes s i
  defines "m \<equiv> length (takeWhile is_word s)"
  defines "x0 \<equiv> \<lparr>pos = i, rest = ''(?:'' @ s, caps = (\<lambda>_. None)\<rparr>"
  assumes "CHR '')'' \<notin> set s"
  shows "matcher False (re_ast re_param) x0
           = map (\<lambda>k. (skip (Suc k + 3) x0)\<lparr>caps := ((caps x0)(1 \<mapsto> take (Suc k) s))(2 \<mapsto> [])\<rparr>)
                 (rev [0..<m])"
proof -
  let ?G2 = "RGroup 2 (RStar True (RGroup 3
           (RSeq (RChar (CHR ''('')) (RSeq (RStar False RAny) (RChar (CHR '')''))))))"
  let ?W = "RClass False [CWord]"
  let ?x3 = "skip 3 x0"
  have r3: "rest ?x3 = s" by (simp add: x0_def)
  have three: "matcher False (re_ast re_param) x0 = matcher False (RSeq (RGroup 1 (RPlus True ?W)) ?G2) ?x3"
    by (simp add: re_param_def matcher.simps(7)[of _ "RChar c" for c] rchar_at x0_def skip_def
          numeral_3_eq_3)
  have plus: "matcher False (RPlus True ?W) ?x3 = map (\<lambda>k. skip (Suc k) ?x3) (rev [0..<m])"
    unfolding m_def using cls_plus_greedy[of "[CWord]" ?x3] r3 by (simp add: word_class)
  have g2: "matcher False ?G2 z = [z\<lparr>caps := (caps z)(2 \<mapsto> [])\<rparr>]" if "rest z = drop k s" for z k
  proof -
    have "CHR '')'' \<notin> set (rest z)" using assms(3) that by (auto dest: in_set_dropD)
    then show ?thesis by (rule constraints_skipped)
  qed
  have "matcher False (RSeq (RGroup 1 (RPlus True ?W)) ?G2) ?x3
          = concat (map (\<lambda>k. matcher False ?G2
              ((skip (Suc k) ?x3)\<lparr>caps := (caps x0)(1 \<mapsto> take (Suc k) s)\<rparr>)) (rev [0..<m]))"
    using r3 by (simp add: matcher.simps(7) matcher.simps(9)[of _ "Suc 0"] plus comp_def)
  also have "\<dots> = concat (map (\<lambda>k. [(skip (Suc k) ?x3)\<lparr>caps := ((caps x0)(1 \<mapsto> take (Suc k) s))(2 \<mapsto> [])\<rparr>])
                        (rev [0..<m]))"
  proof -
    have "matcher False ?G2 ((skip (Suc k) ?x3)\<lparr>caps := (caps x0)(1 \<mapsto> take (Suc k) s)\<rparr>)
            = [(skip (Suc k) ?x3)\<lparr>caps := ((caps x0)(1 \<mapsto> take (Suc k) s))(2 \<mapsto> [])\<rparr>]" for k
      using g2[of "(skip (Suc k) ?x3)\<lparr>caps := (caps x0)(1 \<mapsto> take (Suc k) s)\<rparr>" "Suc k"]
      by (simp add: x0_def numeral_3_eq_3)
    then show ?thesis by simp
  qed
  finally show ?thesis
    by (simp add: three skip_skip add.commute del: upt_Suc)
qed

lemma param_try_none:
  assumes "takeWhile is_word s = []" and "CHR '')'' \<notin> set s"
  shows "try_at re_param i (''(?:'' @ s) = None"
  using param_matches[OF assms(2), of i] assms(1)
  by (simp add: try_at_def re_param_fields)

lemma param_try_some:
  assumes "takeWhile is_word s = n" and "n \<noteq> []" and "CHR '')'' \<notin> set s"
  shows "\<exists>mt. try_at re_param i (''(?:'' @ s) = Some mt \<and> m_text mt = ''(?:'' @ n
              \<and> group_text mt 1 = n \<and> group_text mt 2 = []"
proof -
  let ?m = "length (takeWhile is_word s)"
  from assms(1,2) obtain k where k: "?m = Suc k" by (cases ?m) auto
  have tk: "take (Suc k) s = n"
    using assms(1) k by (metis takeWhile_eq_take)
  have le: "Suc k \<le> length s" using k by (metis length_takeWhile_le)
  let ?x0 = "\<lparr>pos = i, rest = ''(?:'' @ s, caps = (\<lambda>_. None)\<rparr>"
  let ?y = "(skip (Suc k + 3) ?x0)\<lparr>caps := ((caps ?x0)(1 \<mapsto> n))(2 \<mapsto> [])\<rparr>"
  obtain ys where "matcher False (re_ast re_param) ?x0 = ?y # ys"
    using param_matches[OF assms(3), of i] k tk by simp
  then have "try_at re_param i (''(?:'' @ s) =
      Some \<lparr>m_index = i, m_text = take (pos ?y - i) (''(?:'' @ s),
            m_groups = map (caps ?y) [1..<Suc 3]\<rparr>"
    by (simp add: try_at_def re_param_fields)
  moreover have "take (pos ?y - i) (''(?:'' @ s) = ''(?:'' @ n"
  proof -
    have "pos ?y - i = Suc (Suc (Suc (Suc k)))" by simp
    then show ?thesis unfolding \<open>pos ?y - i = Suc (Suc (Suc (Suc k)))\<close> using tk by simp
  qed
  ultimately show ?thesis
    by (simp add: group_text_def upt_groups)
qed

subsection \<open>The two rewriting steps, part by part\<close>

lemma pattern_parts_sep:
  assumes "dropWhile (\<lambda>d. d = CHR ''/'') (c # cs) = CHR '':'' # r" and "c = CHR ''/''"
  shows "pattern_parts (c # cs) =
           (if takeWhile is_word r = [] then Open # pattern_parts r
            else Param (takeWhile is_word r) # pattern_parts (dropWhile is_word r))"
  using assms by (simp add: pattern_parts.simps(2) Let_def)

lemma pattern_parts_lit:
  assumes "c \<noteq> CHR ''/'' \<or> dropWhile (\<lambda>d. d = CHR ''/'') (c # cs) = []
           \<or> hd (dropWhile (\<lambda>d. d = CHR ''/'') (c # cs)) \<noteq> CHR '':''"
  shows "pattern_parts (c # cs) = Lit c # pattern_parts cs"
  using assms by (auto simp: pattern_parts.simps(2) Let_def)

lemma pattern_parts_words:
  "\<forall>c\<in>set u. is_word c \<Longrightarrow> pattern_parts (u @ s) = map Lit u @ pattern_parts s"
proof (induction u)
  case Nil
  then show ?case by simp
next
  case (Cons c u)
  then have "c \<noteq> CHR ''/''" by (auto simp: is_word_def)
  then show ?case using Cons by (simp add: pattern_parts_lit)
qed

lemma takeWhile_separator: "CHR ''('' \<notin> set s \<Longrightarrow> takeWhile is_separator s = takeWhile (\<lambda>d. d = CHR ''/'') s"
  by (rule takeWhile_cong) (auto simp: is_separator_def)

lemma sep_scan_words:
  "\<forall>c\<in>set u. is_word c \<Longrightarrow>
   scan_g re_sep_colon i 0 (u @ s) = map Inl u @ scan_g re_sep_colon (i + length u) 0 s"
proof (induction u arbitrary: i)
  case Nil
  then show ?case by simp
next
  case (Cons c u)
  then have "\<not> is_separator c" by (auto simp: is_word_def is_separator_def)
  then have "try_at re_sep_colon i (c # u @ s) = None"
    by (intro sep_colon_try(2)) simp
  then show ?case using Cons by simp
qed

lemma pieces_text_append:
  "pieces_text f (a @ b) = pieces_text f a @ pieces_text f b"
  by (simp add: pieces_text_def)

lemma pieces_hits_append:
  "pieces_hits (a @ b) = pieces_hits a @ pieces_hits b"
  by (simp add: pieces_hits_def List.map_filter_def)

lemma pieces_hits_Inl: "pieces_hits (map Inl u) = []"
  by (induction u) (simp_all add: pieces_hits_Cons)

lemma step1_scan:
  "CHR ''('' \<notin> set p \<Longrightarrow>
   pieces_text (\<lambda>_. ''(?:'') (scan_g re_sep_colon i 0 p) = concat (map part_rewritten (pattern_parts p))"
proof (induction p arbitrary: i rule: length_induct)
  case (1 p)
  note ih = 1(1)[rule_format]
  show ?case
  proof (cases p)
    case Nil
    have "try_at re_sep_colon i [] = None" by (rule sep_colon_none) simp
    then show ?thesis using Nil by (simp add: pieces_text_Cons)
  next
    case (Cons c cs)
    let ?run = "takeWhile (\<lambda>d. d = CHR ''/'') p" and ?after = "dropWhile (\<lambda>d. d = CHR ''/'') p"
    let ?m = "length ?run"
    have tw: "takeWhile is_separator p = ?run" using 1(2) by (rule takeWhile_separator)
    have dr: "drop ?m p = ?after" by (simp add: dropWhile_eq_drop)
    show ?thesis
    proof (cases "c = CHR ''/'' \<and> ?after \<noteq> [] \<and> hd ?after = CHR '':''")
      case False
      then have "\<not> (0 < length (takeWhile is_separator p) \<and> drop (length (takeWhile is_separator p)) p \<noteq> []
                  \<and> hd (drop (length (takeWhile is_separator p)) p) = CHR '':'')"
        unfolding tw dr using Cons by auto
      then have "try_at re_sep_colon i p = None" by (rule sep_colon_try(2))
      moreover have "pattern_parts p = Lit c # pattern_parts cs"
        unfolding Cons using False Cons by (intro pattern_parts_lit) auto
      moreover have "pieces_text (\<lambda>_. ''(?:'') (scan_g re_sep_colon (Suc i) 0 cs)
                       = concat (map part_rewritten (pattern_parts cs))"
        using 1(2) Cons by (intro ih) auto
      ultimately show ?thesis using Cons by (simp add: pieces_text_Cons)
    next
      case True
      then have c: "c = CHR ''/''" by simp
      define u where "u = takeWhile (\<lambda>d. d = CHR ''/'') cs"
      have run: "?run = c # u" and after: "?after = dropWhile (\<lambda>d. d = CHR ''/'') cs"
        using Cons c by (simp_all add: u_def)
      from True obtain r where r: "?after = CHR '':'' # r" by (cases ?after) auto
      have cs: "cs = u @ CHR '':'' # r"
        unfolding u_def using r after by (metis takeWhile_dropWhile_id)
      have m: "?m = Suc (length u)" using run by simp
      from sep_colon_try(1)[of p i] obtain mt where
        mt: "try_at re_sep_colon i p = Some mt" "m_text mt = take (Suc ?m) p"
        unfolding tw dr using m r by auto
      have p_eq: "p = c # u @ CHR '':'' # r" unfolding Cons cs by simp
      have "take (Suc (Suc (length u))) (c # u @ CHR '':'' # r) = c # u @ '':''" by simp
      then have "take (Suc ?m) p = c # u @ '':''"
        unfolding m using p_eq by simp
      then have len: "length (m_text mt) - 1 = Suc (length u)" and ne: "m_text mt \<noteq> []"
        using mt(2) by simp_all
      have "scan_g re_sep_colon i 0 (c # cs) = Inr mt # scan_g re_sep_colon (Suc i) (Suc (length u)) cs"
        using mt(1) ne len Cons by simp
      also have "scan_g re_sep_colon (Suc i) (Suc (length u)) cs
                   = scan_g re_sep_colon (Suc i + Suc (length u)) 0 (drop (Suc (length u)) cs)"
        by (rule scan_skip) (simp add: cs)
      also have "drop (Suc (length u)) cs = r"
        by (simp add: cs)
      finally have sc: "scan_g re_sep_colon i 0 p = Inr mt # scan_g re_sep_colon (Suc i + ?m) 0 r"
        using m Cons by simp
      have rp: "CHR ''('' \<notin> set r" "length r < length p"
        using 1(2) unfolding p_eq by simp_all
      have pc: "pattern_parts p = (if takeWhile is_word r = [] then Open # pattern_parts r
            else Param (takeWhile is_word r) # pattern_parts (dropWhile is_word r))"
        unfolding Cons by (rule pattern_parts_sep) (use r True Cons in auto)
      show ?thesis
      proof (cases "takeWhile is_word r = []")
        case True
        then show ?thesis using sc pc ih[OF rp(2) rp(1)] by (simp add: pieces_text_Cons)
      next
        case False
        let ?n = "takeWhile is_word r" and ?r' = "dropWhile is_word r"
        have w: "\<forall>c\<in>set ?n. is_word c" by (auto dest: set_takeWhileD)
        have r_eq: "r = ?n @ ?r'" by simp
        have "scan_g re_sep_colon (Suc i + ?m) 0 (?n @ ?r')
                = map Inl ?n @ scan_g re_sep_colon (Suc i + ?m + length ?n) 0 ?r'"
          using w by (rule sep_scan_words)
        moreover have "pieces_text (\<lambda>_. ''(?:'') (scan_g re_sep_colon (Suc i + ?m + length ?n) 0 ?r')
                = concat (map part_rewritten (pattern_parts ?r'))"
        proof (rule ih)
          show "length ?r' < length p" using rp(2) by (meson length_dropWhile_le le_less_trans)
          show "CHR ''('' \<notin> set ?r'" using rp(1) by (auto dest: set_dropWhileD)
        qed
        ultimately show ?thesis using sc pc False
          by (simp add: pieces_text_Cons pieces_text_append pieces_text_Inl)
      qed
    qed
  qed
qed

lemma pattern_parts_induct [case_names Nil Lit Open Param]:
  assumes "P []"
    and "\<And>c cs. pattern_parts (c # cs) = Lit c # pattern_parts cs \<Longrightarrow> P cs \<Longrightarrow> P (c # cs)"
    and "\<And>u r. u \<noteq> [] \<Longrightarrow> \<forall>d\<in>set u. d = CHR ''/'' \<Longrightarrow> takeWhile is_word r = [] \<Longrightarrow>
            pattern_parts (u @ CHR '':'' # r) = Open # pattern_parts r \<Longrightarrow> P r \<Longrightarrow> P (u @ CHR '':'' # r)"
    and "\<And>u n r. u \<noteq> [] \<Longrightarrow> \<forall>d\<in>set u. d = CHR ''/'' \<Longrightarrow> n \<noteq> [] \<Longrightarrow> \<forall>c\<in>set n. is_word c \<Longrightarrow>
            takeWhile is_word r = [] \<Longrightarrow>
            pattern_parts (u @ CHR '':'' # n @ r) = Param n # pattern_parts r \<Longrightarrow> P r \<Longrightarrow>
            P (u @ CHR '':'' # n @ r)"
  shows "P p"
proof (induction p rule: length_induct)
  case (1 p)
  note ih = 1[rule_format]
  show ?case
  proof (cases p)
    case Nil
    then show ?thesis using assms(1) by simp
  next
    case (Cons c cs)
    let ?after = "dropWhile (\<lambda>d. d = CHR ''/'') p"
    show ?thesis
    proof (cases "c = CHR ''/'' \<and> ?after \<noteq> [] \<and> hd ?after = CHR '':''")
      case False
      then have "pattern_parts (c # cs) = Lit c # pattern_parts cs" using Cons by (intro pattern_parts_lit) auto
      moreover have "P cs" using Cons by (intro ih) simp
      ultimately show ?thesis unfolding Cons by (rule assms(2))
    next
      case True
      define u where "u = takeWhile (\<lambda>d. d = CHR ''/'') p"
      from True obtain r where r: "?after = CHR '':'' # r" by (cases ?after) auto
      have p_eq: "p = u @ CHR '':'' # r"
        unfolding u_def using r by (metis takeWhile_dropWhile_id)
      have u: "u \<noteq> []" "\<forall>d\<in>set u. d = CHR ''/''"
        using True Cons by (auto simp: u_def dest: set_takeWhileD)
      have pc: "pattern_parts p = (if takeWhile is_word r = [] then Open # pattern_parts r
            else Param (takeWhile is_word r) # pattern_parts (dropWhile is_word r))"
        unfolding Cons by (rule pattern_parts_sep) (use r True Cons in auto)
      show ?thesis
      proof (cases "takeWhile is_word r = []")
        case e: True
        have "P r" by (rule ih) (simp add: p_eq)
        with u e pc show ?thesis unfolding p_eq by (intro assms(3)) simp_all
      next
        case ne: False
        let ?n = "takeWhile is_word r" and ?r' = "dropWhile is_word r"
        have r_eq: "r = ?n @ ?r'" by simp
        have "length ?r' \<le> length r" by (rule length_dropWhile_le)
        then have "P ?r'" by (intro ih) (simp add: p_eq)
        moreover have "takeWhile is_word ?r' = []"
          by (metis (full_types) dropWhile_eq_Nil_conv hd_dropWhile takeWhile_eq_Nil_iff list.set_sel(1) takeWhile.simps(1))
        moreover have "\<forall>c\<in>set ?n. is_word c" by (auto dest: set_takeWhileD)
        moreover have "pattern_parts (u @ CHR '':'' # ?n @ ?r') = Param ?n # pattern_parts ?r'"
          using pc ne p_eq by simp
        ultimately have "P (u @ CHR '':'' # ?n @ ?r')"
          using u ne by (intro assms(4)) simp_all
        then show ?thesis using p_eq by simp
      qed
    qed
  qed
qed

lemma step1_text_set: "set (step1_text p) \<subseteq> set p \<union> set ''(?:''"
  by (induction p rule: pattern_parts_induct) auto

lemma lits_of_parts: "Lit c \<in> set (pattern_parts p) \<Longrightarrow> c \<in> set p"
  by (induction p rule: pattern_parts_induct) auto

lemma step1_text_hd:
  assumes "takeWhile is_word r = []" shows "takeWhile is_word (step1_text r) = []"
proof (cases r)
  case Nil
  then show ?thesis by simp
next
  case (Cons d ds)
  then have d: "\<not> is_word d" using assms by (auto split: if_splits)
  have w: "\<not> is_word (CHR ''('')" by (simp add: is_word_def)
  show ?thesis using d w unfolding Cons by (simp add: pattern_parts.simps(2) Let_def)
qed

lemma param_scan_open:
  assumes "try_at re_param i (''(?:'' @ t) = None"
  shows "scan_g re_param i 0 (''(?:'' @ t) = Inl (CHR ''('') # Inl (CHR ''?'') # Inl (CHR '':'')
           # scan_g re_param (i + 3) 0 t"
proof -
  have q: "try_at re_param (Suc i) (''?:'' @ t) = None" by (intro param_none) simp
  have c: "try_at re_param (Suc (Suc i)) ('':'' @ t) = None" by (intro param_none) simp
  show ?thesis using assms q c by (simp add: numeral_3_eq_3)
qed

lemma param_scan_hit:
  assumes "try_at re_param i (''(?:'' @ n @ t) = Some mt" and "m_text mt = ''(?:'' @ n"
  shows "scan_g re_param i 0 (''(?:'' @ n @ t) = Inr mt # scan_g re_param (i + 3 + length n) 0 t"
proof -
  have l: "length (m_text mt) - 1 = 2 + length n" and ne: "m_text mt \<noteq> []"
    using assms(2) by simp_all
  have "scan_g re_param (Suc i) (2 + length n) (''?:'' @ n @ t)
          = scan_g re_param (Suc i + (2 + length n)) 0 (drop (2 + length n) (''?:'' @ n @ t))"
    by (rule scan_skip) simp
  also have "drop (2 + length n) (''?:'' @ n @ t) = t" by (simp add: numeral_2_eq_2)
  also have "Suc i + (2 + length n) = i + 3 + length n" by simp
  finally have sk: "scan_g re_param (Suc i) (2 + length n) (''?:'' @ n @ t)
          = scan_g re_param (i + 3 + length n) 0 t" .
  have "scan_g re_param i 0 (CHR ''('' # ''?:'' @ n @ t)
          = Inr mt # scan_g re_param (Suc i) (length (m_text mt) - 1) (''?:'' @ n @ t)"
    using assms(1) ne by (subst scan_g.simps(3)) simp
  then show ?thesis unfolding l sk by simp
qed

lemma step2_scan:
  "CHR ''('' \<notin> set p \<Longrightarrow> CHR '')'' \<notin> set p \<Longrightarrow>
   pieces_text param_replacer (scan_g re_param i 0 (step1_text p)) = concat (map part_source (pattern_parts p))
   \<and> map (\<lambda>mt. group_text mt 1) (pieces_hits (scan_g re_param i 0 (step1_text p))) = part_names (pattern_parts p)"
proof (induction p arbitrary: i rule: pattern_parts_induct)
  case Nil
  have "try_at re_param i [] = None" by (rule param_none) simp
  then show ?case by (simp add: pieces_text_Cons pieces_hits_Cons)
next
  case (Lit c cs)
  then have "c \<noteq> CHR ''(''" by auto
  then have "try_at re_param i (c # step1_text cs) = None" by (intro param_none) simp
  then show ?case using Lit by (simp add: pieces_text_Cons pieces_hits_Cons)
next
  case (Open u r)
  have nc: "CHR '')'' \<notin> set (step1_text r)"
    using Open.prems(2) step1_text_set[of r] by auto
  have "try_at re_param i (''(?:'' @ step1_text r) = None"
    using step1_text_hd[OF Open.hyps(3)] nc by (rule param_try_none)
  from param_scan_open[OF this] show ?case
    using Open by (simp add: pieces_text_Cons pieces_hits_Cons)
next
  case (Param u n r)
  have nc: "CHR '')'' \<notin> set (n @ step1_text r)"
    using Param.prems(2) step1_text_set[of r] by auto
  have tw: "takeWhile is_word (n @ step1_text r) = n"
    using Param.hyps(4) step1_text_hd[OF Param.hyps(5)] by simp
  from param_try_some[OF tw Param.hyps(3) nc, of i] obtain mt where
    mt: "try_at re_param i (''(?:'' @ n @ step1_text r) = Some mt" "m_text mt = ''(?:'' @ n"
        "group_text mt 1 = n" "group_text mt 2 = []"
    by blast
  from param_scan_hit[OF mt(1,2)] show ?case
    using Param mt(3) param_replacer_plain[OF mt(4)]
    by (simp add: pieces_text_Cons pieces_hits_Cons)
qed

lemma source_no_double_close:
  "Lit (CHR '')'') \<notin> set ps \<Longrightarrow>
   replace_first ''))'' r (concat (map part_source ps)) = concat (map part_source ps)"
proof (induction ps)
  case Nil
  then show ?case by simp
next
  case (Cons q ps)
  then have ih: "replace_first ''))'' r (concat (map part_source ps)) = concat (map part_source ps)"
    by simp
  have np: "\<not> prefix '')'' (concat (map part_source ps))"
  proof (cases ps)
    case Nil
    then show ?thesis by simp
  next
    case (Cons q' ps')
    then show ?thesis using Cons.prems by (cases q') auto
  qed
  show ?case
  proof (cases q)
    case (Lit c)
    then have "c \<noteq> CHR '')''" using Cons.prems by auto
    then show ?thesis using Lit ih by simp
  next
    case Open
    then show ?thesis using ih by simp
  next
    case (Param n)
    then show ?thesis using ih np by simp
  qed
qed

lemma source_no_star:
  "CHR ''*'' \<notin> set p \<Longrightarrow> CHR ''*'' \<notin> set (concat (map part_source (pattern_parts p)))"
  by (induction p rule: pattern_parts_induct) simp_all

lemma compiled_text:
  assumes "CHR ''('' \<notin> set p" and "CHR '')'' \<notin> set p"
  shows "param_keys p = part_names (pattern_parts p)"
    and "CHR ''*'' \<notin> set p \<Longrightarrow>
         regexp_source p = (if isHashRouter p then [] else ''^'')
                             @ concat (map part_source (pattern_parts p)) @ ''((#.+)?)$''"
proof -
  have s1: "replace_g re_sep_colon (\<lambda>_. ''(?:'') p = step1_text p"
    using assms(1) by (simp add: replace_g_def step1_scan)
  show "param_keys p = part_names (pattern_parts p)"
    using step2_scan[OF assms, of 0] by (simp add: param_keys_def s1)
  assume st: "CHR ''*'' \<notin> set p"
  have s2: "replace_g re_param param_replacer (step1_text p) = concat (map part_source (pattern_parts p))"
    using step2_scan[OF assms, of 0] by (simp add: replace_g_def)
  have "Lit (CHR '')'') \<notin> set (pattern_parts p)" using assms(2) lits_of_parts by blast
  then have s3: "replace_first ''))'' '')'' (concat (map part_source (pattern_parts p)))
                  = concat (map part_source (pattern_parts p))"
    by (rule source_no_double_close)
  have "CHR ''*'' \<notin> set (concat (map part_source (pattern_parts p)))"
    using st by (rule source_no_star)
  then have s4: "replace_g re_star f (concat (map part_source (pattern_parts p)))
                  = concat (map part_source (pattern_parts p))" for f
    by (rule star_id)
  show "regexp_source p = (if isHashRouter p then [] else ''^'')
                             @ concat (map part_source (pattern_parts p)) @ ''((#.+)?)$''"
    by (simp add: regexp_source_def s1 s2 s3 s4)
qed

subsection \<open>The tokens of the source\<close>

text \<open>
  When the literal characters of the pattern are plain, the source of the expression
  either does not pass the lexer or is read block by block: flat tokens for the
  literal characters (a quantifier may take two of them, a counted repetition
  several), the opening of a group for an unnamed part, the nine tokens of a segment
  for a parameter.
\<close>

lemma source_starts:
  assumes "r \<noteq> []" "hd r = CHR ''(''" "parts_source ps @ r = c # t" "c \<noteq> CHR ''(''"
  shows "\<exists>ps'. ps = Lit c # ps' \<and> t = parts_source ps' @ r"
proof (cases ps)
  case Nil
  then show ?thesis using assms by (cases r) auto
next
  case (Cons q ps')
  then show ?thesis using assms by (cases q) auto
qed

lemma lexer_flat_step:
  assumes "lexer LNormal (c # cs) = cons_tok t (lexer LNormal s)" and "flat_token t"
    and "(\<exists>e. lexer LNormal s = Inl e) \<or>
         (\<exists>tps. lexer LNormal s = foldr cons_tok (concat (map block_toks tps)) (lexer LNormal r)
                 \<and> blocks_ok tps ps')"
    and "part_names ps = part_names ps'" and "Open \<in> set ps \<longleftrightarrow> Open \<in> set ps'"
  shows "(\<exists>e. lexer LNormal (c # cs) = Inl e) \<or>
         (\<exists>tps. lexer LNormal (c # cs) = foldr cons_tok (concat (map block_toks tps)) (lexer LNormal r)
                 \<and> blocks_ok tps ps)"
  using assms(3)
proof
  assume "\<exists>e. lexer LNormal s = Inl e"
  then show ?thesis using assms(1) by (auto simp: cons_tok_def)
next
  assume "\<exists>tps. lexer LNormal s = foldr cons_tok (concat (map block_toks tps)) (lexer LNormal r)
                 \<and> blocks_ok tps ps'"
  then obtain tps where
    t: "lexer LNormal s = foldr cons_tok (concat (map block_toks tps)) (lexer LNormal r)"
       "blocks_ok tps ps'" by blast
  have "lexer LNormal (c # cs) = foldr cons_tok (concat (map block_toks (BFlat t # tps))) (lexer LNormal r)"
    using assms(1) t(1) by simp
  moreover have "blocks_ok (BFlat t # tps) ps" using t(2) assms(2,4,5) by auto
  ultimately show ?thesis by blast
qed

lemma braced_consumes:
  assumes "braced s = Some (mn, mx, r)"
  shows "\<exists>w. s = w @ r \<and> w \<noteq> [] \<and> CHR ''('' \<notin> set w"
proof -
  let ?ds = "takeWhile is_digit s"
  have nd: "\<not> is_digit (CHR ''('')" by (simp add: is_digit_def)
  have dg: "CHR ''('' \<notin> set (takeWhile is_digit t)" for t
    using nd by (auto dest: set_takeWhileD)
  from assms obtain c r1 where r1: "dropWhile is_digit s = c # r1" and ne: "?ds \<noteq> []"
    by (auto simp: braced_def Let_def split: if_splits list.splits)
  have s: "s = ?ds @ c # r1" using r1 by (metis takeWhile_dropWhile_id)
  show ?thesis
  proof (cases "c = CHR ''}''")
    case True
    then have "r = r1" using assms r1 ne by (simp add: braced_def Let_def)
    then show ?thesis using s True dg[of s]
      by (intro exI[of _ "?ds @ [c]"]) simp
  next
    case False
    then have c: "c = CHR '',''" using assms r1 ne
      by (auto simp: braced_def Let_def split: if_splits)
    let ?es = "takeWhile is_digit r1"
    from assms obtain e where r': "dropWhile is_digit r1 = e # r" and e: "e = CHR ''}''"
      using r1 ne c by (auto simp: braced_def Let_def split: if_splits list.splits)
    have "r1 = ?es @ e # r" using r' by (metis takeWhile_dropWhile_id)
    then have "s = (?ds @ c # ?es @ [e]) @ r" using s by simp
    moreover have "CHR ''('' \<notin> set (?ds @ c # ?es @ [e])"
      using dg[of s] dg[of r1] c e by simp
    ultimately show ?thesis by (intro exI[of _ "?ds @ c # ?es @ [e]"]) simp
  qed
qed

lemma source_prefix:
  assumes "r \<noteq> []" "hd r = CHR ''(''"
  shows "parts_source ps @ r = w @ t \<Longrightarrow> CHR ''('' \<notin> set w \<Longrightarrow>
         \<exists>ps'. ps = map Lit w @ ps' \<and> t = parts_source ps' @ r"
proof (induction w arbitrary: ps)
  case Nil
  then show ?case by simp
next
  case (Cons c w)
  from Cons.prems have "parts_source ps @ r = c # (w @ t)" "c \<noteq> CHR ''(''" by auto
  from source_starts[OF assms this] obtain ps1 where
    p: "ps = Lit c # ps1" "w @ t = parts_source ps1 @ r" by blast
  from Cons.IH[OF p(2)[symmetric]] Cons.prems(2) obtain ps' where
    "ps1 = map Lit w @ ps'" "t = parts_source ps' @ r" by auto
  then show ?case using p(1) by simp
qed

lemma part_names_lits: "part_names (map Lit w @ ps) = part_names ps"
  by (induction w) simp_all

lemma lexer_single:
  assumes "plain_char c" and "c \<noteq> CHR ''{''" and "quant_of c = None"
  shows "\<exists>t. flat_token t \<and> (\<forall>cs. lexer LNormal (c # cs) = cons_tok t (lexer LNormal cs))"
proof -
  consider "c = CHR ''|''" | "c = CHR ''.''" | "c = CHR ''^''" | "c = CHR ''$''"
    | "c \<notin> set ''|.^$''" by auto
  then show ?thesis
  proof cases
    case 1
    then show ?thesis
      by (intro exI[of _ TBar]) (simp add: flat_token_def lexer.simps(3) backslash_def)
  next
    case 2
    then show ?thesis
      by (intro exI[of _ "TAtom RAny"]) (simp add: flat_token_def lexer.simps(3) backslash_def)
  next
    case 3
    then show ?thesis
      by (intro exI[of _ "TAssert RBol"]) (simp add: flat_token_def lexer.simps(3) backslash_def)
  next
    case 4
    then show ?thesis
      by (intro exI[of _ "TAssert REol"]) (simp add: flat_token_def lexer.simps(3) backslash_def)
  next
    case 5
    then show ?thesis using assms
      by (intro exI[of _ "TAtom (RChar c)"]) (simp add: flat_token_def lexer.simps(3) plain_char_def)
  qed
qed

lemma lexer_quant:
  assumes "quant_of c = Some q"
  shows "lexer LNormal (c # CHR ''?'' # cs) = cons_tok (TQuant q False) (lexer LNormal cs)"
    and "cs = [] \<or> hd cs \<noteq> CHR ''?'' \<Longrightarrow>
         lexer LNormal (c # cs) = cons_tok (TQuant q True) (lexer LNormal cs)"
proof -
  have c: "c \<noteq> backslash" "c \<notin> set ''[()|.^${''"
    using assms by (auto simp: quant_of_def backslash_def split: if_splits)
  show "lexer LNormal (c # CHR ''?'' # cs) = cons_tok (TQuant q False) (lexer LNormal cs)"
    using c assms by (simp add: lexer.simps(3))
  show "lexer LNormal (c # cs) = cons_tok (TQuant q True) (lexer LNormal cs)"
    if "cs = [] \<or> hd cs \<noteq> CHR ''?''"
    using c assms that by (cases cs) (simp_all add: lexer.simps(3))
qed

lemma lexer_at_brace:
  "lexer LNormal (CHR ''{'' # cs) =
     (case braced cs of
        None \<Rightarrow> cons_tok (TAtom (RChar (CHR ''{''))) (lexer LNormal cs)
      | Some (mn, mx, cs') \<Rightarrow>
          if \<not> bounds_ordered mn mx then Inl SyntaxError
          else (case cs' of
                  [] \<Rightarrow> cons_tok (TQuant (QRep mn mx) True) (lexer LNormal cs')
                | l # cs'' \<Rightarrow>
                    if l = CHR ''?'' then cons_tok (TQuant (QRep mn mx) False) (lexer LNormal cs'')
                    else cons_tok (TQuant (QRep mn mx) True) (lexer LNormal cs')))"
proof -
  have "(case mx of None \<Rightarrow> False | Some m \<Rightarrow> m < mn) = (\<not> bounds_ordered mn mx)" for mn mx
    by (cases mx) (auto simp: bounds_ordered_def)
  then show ?thesis
    by (subst lexer.simps(3)) (simp add: backslash_def cong: option.case_cong)
qed

lemma lexer_brace:
  "braced cs = None \<Longrightarrow>
     lexer LNormal (CHR ''{'' # cs) = cons_tok (TAtom (RChar (CHR ''{''))) (lexer LNormal cs)"
  "braced cs = Some (mn, mx, cs') \<Longrightarrow> \<not> bounds_ordered mn mx \<Longrightarrow>
     lexer LNormal (CHR ''{'' # cs) = Inl SyntaxError"
  "braced cs = Some (mn, mx, CHR ''?'' # cs2) \<Longrightarrow> bounds_ordered mn mx \<Longrightarrow>
     lexer LNormal (CHR ''{'' # cs) = cons_tok (TQuant (QRep mn mx) False) (lexer LNormal cs2)"
  "braced cs = Some (mn, mx, cs') \<Longrightarrow> bounds_ordered mn mx \<Longrightarrow> cs' = [] \<or> hd cs' \<noteq> CHR ''?'' \<Longrightarrow>
     lexer LNormal (CHR ''{'' # cs) = cons_tok (TQuant (QRep mn mx) True) (lexer LNormal cs')"
  by (auto simp: lexer_at_brace split: list.splits)

lemma lex_source:
  "r \<noteq> [] \<Longrightarrow> hd r = CHR ''('' \<Longrightarrow> \<forall>c. Lit c \<in> set ps \<longrightarrow> plain_char c \<Longrightarrow>
   (\<exists>e. lexer LNormal (parts_source ps @ r) = Inl e) \<or>
   (\<exists>tps. lexer LNormal (parts_source ps @ r)
             = foldr cons_tok (concat (map block_toks tps)) (lexer LNormal r)
           \<and> blocks_ok tps ps)"
proof (induction ps rule: length_induct)
  case (1 ps)
  note ih = 1(1)[rule_format, OF _ 1(2,3)]
  show ?case
  proof (cases ps)
    case Nil
    show ?thesis using Nil by (intro disjI2 exI[of _ "[]"]) simp
  next
    case (Cons q ps')
    have pl: "\<forall>c. Lit c \<in> set ps' \<longrightarrow> plain_char c" using 1(4) Cons by simp
    have ih': "(\<exists>e. lexer LNormal (parts_source ps' @ r) = Inl e) \<or>
               (\<exists>tps. lexer LNormal (parts_source ps' @ r)
                   = foldr cons_tok (concat (map block_toks tps)) (lexer LNormal r)
                 \<and> blocks_ok tps ps')"
      using Cons pl by (intro ih) simp_all
    show ?thesis
    proof (cases q)
      case Open
      from ih' show ?thesis
      proof
        assume "\<exists>e. lexer LNormal (parts_source ps' @ r) = Inl e"
        then show ?thesis using Cons Open lexer_open_nc[of "parts_source ps' @ r"]
          by (auto simp: cons_tok_def)
      next
        assume "\<exists>tps. lexer LNormal (parts_source ps' @ r)
                   = foldr cons_tok (concat (map block_toks tps)) (lexer LNormal r)
                 \<and> blocks_ok tps ps'"
        then obtain tps where t: "lexer LNormal (parts_source ps' @ r)
                   = foldr cons_tok (concat (map block_toks tps)) (lexer LNormal r)"
          "blocks_ok tps ps'" by blast
        have "lexer LNormal (parts_source ps @ r)
                = foldr cons_tok (concat (map block_toks (BNc # tps))) (lexer LNormal r)"
          using Cons Open lexer_open_nc[of "parts_source ps' @ r"] t(1) by simp
        moreover have "blocks_ok (BNc # tps) ps" using t(2) Cons Open by auto
        ultimately show ?thesis by blast
      qed
    next
      case (Param n)
      have seg: "lexer LNormal (parts_source ps @ r)
                   = foldr cons_tok seg_toks (lexer LNormal (parts_source ps' @ r))"
        using Cons Param lexer_param_segment[of "parts_source ps' @ r"] by (simp add: seg_toks_def)
      from ih' show ?thesis
      proof
        assume "\<exists>e. lexer LNormal (parts_source ps' @ r) = Inl e"
        then obtain e where e: "lexer LNormal (parts_source ps' @ r) = Inl e" by blast
        have "foldr cons_tok toks (Inl e) = Inl e" for toks
          by (induction toks) (simp_all add: cons_tok_def)
        then have "lexer LNormal (parts_source ps @ r) = Inl e" unfolding seg e .
        then show ?thesis by blast
      next
        assume "\<exists>tps. lexer LNormal (parts_source ps' @ r)
                   = foldr cons_tok (concat (map block_toks tps)) (lexer LNormal r)
                 \<and> blocks_ok tps ps'"
        then obtain tps where t: "lexer LNormal (parts_source ps' @ r)
                   = foldr cons_tok (concat (map block_toks tps)) (lexer LNormal r)"
          "blocks_ok tps ps'" by blast
        have "lexer LNormal (parts_source ps @ r)
                = foldr cons_tok (concat (map block_toks (BSeg # tps))) (lexer LNormal r)"
          unfolding seg t(1) by simp
        moreover have "blocks_ok (BSeg # tps) ps" using t(2) Cons Param by auto
        ultimately show ?thesis by blast
      qed
    next
      case (Lit c)
      have c: "plain_char c" using 1(4) Cons Lit by simp
      have src: "parts_source ps @ r = c # parts_source ps' @ r" using Cons Lit by simp
      have nm: "part_names ps = part_names ps'" "Open \<in> set ps \<longleftrightarrow> Open \<in> set ps'"
        using Cons Lit by simp_all
      show ?thesis
      proof (cases "c = CHR ''{''")
        case brace: True
        let ?s = "parts_source ps' @ r"
        show ?thesis
        proof (cases "braced ?s")
          case None
          have "lexer LNormal (c # ?s) = cons_tok (TAtom (RChar (CHR ''{''))) (lexer LNormal ?s)"
            unfolding brace using None by (rule lexer_brace(1))
          moreover have "flat_token (TAtom (RChar (CHR ''{'')))" by (simp add: flat_token_def)
          ultimately show ?thesis unfolding src using ih' nm by (rule lexer_flat_step)
        next
          case (Some a)
          then obtain mn mx t where b: "braced ?s = Some (mn, mx, t)" by (cases a) auto
          show ?thesis
          proof (cases "bounds_ordered mn mx")
            case False
            with b have "lexer LNormal (c # ?s) = Inl SyntaxError"
              unfolding brace by (rule lexer_brace(2))
            then show ?thesis unfolding src by blast
          next
            case ord: True
            from braced_consumes[OF b] obtain w where
              w: "?s = w @ t" "w \<noteq> []" "CHR ''('' \<notin> set w" by blast
            from source_prefix[OF 1(2,3) w(1,3)] obtain ps2 where
              p2: "ps' = map Lit w @ ps2" "t = parts_source ps2 @ r" by blast
            have nm2: "part_names ps = part_names ps2" "Open \<in> set ps \<longleftrightarrow> Open \<in> set ps2"
              using nm p2(1) by (auto simp: part_names_lits)
            have pl2: "\<forall>c. Lit c \<in> set ps2 \<longrightarrow> plain_char c" using pl p2(1) by simp
            have ih2: "(\<exists>e. lexer LNormal (parts_source ps2 @ r) = Inl e) \<or>
               (\<exists>tps. lexer LNormal (parts_source ps2 @ r)
                   = foldr cons_tok (concat (map block_toks tps)) (lexer LNormal r)
                 \<and> blocks_ok tps ps2)"
              using Cons pl2 p2(1) by (intro ih) simp_all
            show ?thesis
            proof (cases "hd t = CHR ''?''")
              case False
              then have "lexer LNormal (c # ?s) = cons_tok (TQuant (QRep mn mx) True) (lexer LNormal t)"
                unfolding brace by (intro lexer_brace(4)[OF b ord]) simp
              moreover have "flat_token (TQuant (QRep mn mx) True)" by (simp add: flat_token_def)
              ultimately show ?thesis unfolding src
                using ih2 nm2 unfolding p2(2) by (rule lexer_flat_step)
            next
              case True
              have "parts_source ps2 @ r \<noteq> []" using 1(2) by simp
              then obtain t' where t': "parts_source ps2 @ r = CHR ''?'' # t'"
                using True unfolding p2(2) by (cases "parts_source ps2 @ r") auto
              from source_starts[OF 1(2,3) this] obtain ps3 where
                p3: "ps2 = Lit (CHR ''?'') # ps3" "t' = parts_source ps3 @ r" by auto
              have "(\<exists>e. lexer LNormal (parts_source ps3 @ r) = Inl e) \<or>
                 (\<exists>tps. lexer LNormal (parts_source ps3 @ r)
                     = foldr cons_tok (concat (map block_toks tps)) (lexer LNormal r)
                   \<and> blocks_ok tps ps3)"
                using Cons pl2 p2(1) p3 by (intro ih) simp_all
              moreover have "lexer LNormal (c # ?s)
                         = cons_tok (TQuant (QRep mn mx) False) (lexer LNormal (parts_source ps3 @ r))"
                unfolding brace
                using lexer_brace(3)[of ?s mn mx "parts_source ps3 @ r"] b ord p2(2) t' p3(2) by simp
              moreover have "flat_token (TQuant (QRep mn mx) False)" by (simp add: flat_token_def)
              moreover have "part_names ps = part_names ps3" "Open \<in> set ps \<longleftrightarrow> Open \<in> set ps3"
                using nm2 p3 by simp_all
              ultimately show ?thesis unfolding src
                by (intro lexer_flat_step[where ps' = ps3 and s = "parts_source ps3 @ r"])
            qed
          qed
        qed
      next
        case nb: False
        show ?thesis
        proof (cases "quant_of c")
          case None
          from lexer_single[OF c nb None] obtain t where
            t: "flat_token t" "\<And>cs. lexer LNormal (c # cs) = cons_tok t (lexer LNormal cs)" by blast
          show ?thesis unfolding src
            by (rule lexer_flat_step[OF t(2) t(1) ih' nm])
        next
          case (Some qq)
          show ?thesis
          proof (cases "hd (parts_source ps' @ r) = CHR ''?''")
            case False
            then have "lexer LNormal (c # parts_source ps' @ r)
                         = cons_tok (TQuant qq True) (lexer LNormal (parts_source ps' @ r))"
              by (intro lexer_quant(2)[OF Some]) simp
            moreover have "flat_token (TQuant qq True)" by (simp add: flat_token_def)
            ultimately show ?thesis unfolding src
              using ih' nm by (rule lexer_flat_step)
          next
            case True
            then obtain t where "parts_source ps' @ r = CHR ''?'' # t"
              using 1(2) by (cases "parts_source ps' @ r") auto
            from source_starts[OF 1(2,3) this] obtain ps'' where
              p: "ps' = Lit (CHR ''?'') # ps''" "t = parts_source ps'' @ r" by auto
            have "(\<exists>e. lexer LNormal (parts_source ps'' @ r) = Inl e) \<or>
               (\<exists>tps. lexer LNormal (parts_source ps'' @ r)
                   = foldr cons_tok (concat (map block_toks tps)) (lexer LNormal r)
                 \<and> blocks_ok tps ps'')"
              using Cons pl p by (intro ih) simp_all
            moreover have "lexer LNormal (c # parts_source ps' @ r)
                         = cons_tok (TQuant qq False) (lexer LNormal (parts_source ps'' @ r))"
              using lexer_quant(1)[OF Some, of "parts_source ps'' @ r"] p by simp
            moreover have "flat_token (TQuant qq False)" by (simp add: flat_token_def)
            moreover have "part_names ps = part_names ps''" "Open \<in> set ps \<longleftrightarrow> Open \<in> set ps''"
              using nm p by simp_all
            ultimately show ?thesis unfolding src
              by (intro lexer_flat_step[where ps' = ps'' and s = "parts_source ps'' @ r"]) 
          qed
        qed
      qed
    qed
  qed
qed

subsection \<open>The groups of the parsed expression\<close>

text \<open>
  Flat tokens neither open nor close a frame of the parser, so the opening of a group
  that no parameter segment closes makes the parse fail; a segment adds one group,
  numbered by the counter, after the groups the frame already holds; and the hash
  suffix adds the last two.
\<close>

lemma groups_of_ids: "map fst (groups_of r) = group_ids r"
  by (induction r) simp_all

lemma groups_of_none: "group_ids r = [] \<Longrightarrow> groups_of r = []"
  using groups_of_ids[of r] by simp

lemma groups_of_seq: "groups_of (seq_of rs) = concat (map groups_of rs)"
  by (induction rs rule: seq_of.induct) simp_all

lemma groups_of_alt: "groups_of (alt_of rs) = concat (map groups_of rs)"
  by (induction rs rule: alt_of.induct) simp_all

lemma groups_of_quant: "groups_of (apply_quant q g r) = groups_of r"
  by (cases q) (simp_all add: apply_quant_def)

lemma groups_of_close:
  "groups_of (close_frame (None, alts, sq)) = frame_groups alts sq"
  by (simp add: close_frame_def frame_groups_def groups_of_alt groups_of_seq rev_map comp_def)

lemma parse_seg:
  "parse_tokens (seg_toks @ ts) ((cap, alts, sq) # st) n
     = parse_tokens ts ((cap, alts, (seg_regex n, True) # sq) # st) (Suc n)"
  by (simp add: seg_toks_def seg_regex_def param_body_def close_frame_def apply_quant_def)

lemma parse_tail:
  "parse_tokens tail_toks ((cap, alts, sq) # st) n
     = (if st = [] then Inr (close_frame (cap, alts, (REol, False) # (hash_tail n, True) # sq), Suc (Suc n))
        else Inl SyntaxError)"
  by (cases st) (simp_all add: tail_toks_def close_frame_def apply_quant_def hash_tail_def)

lemma groups_of_seg: "groups_of (seg_regex n) = [(n, param_body)]"
  by (simp add: seg_regex_def param_body_def)

lemma parse_blocks:
  "parse_tokens (concat (map block_toks tps) @ tail_toks) ((None, alts, sq) # st) n = Inr (r, n') \<Longrightarrow>
   \<forall>t. BFlat t \<in> set tps \<longrightarrow> flat_token t \<Longrightarrow>
   st = [] \<and> BNc \<notin> set tps
   \<and> n' = n + length (filter (\<lambda>b. b = BSeg) tps) + 2
   \<and> groups_of r = frame_groups alts sq
        @ map (\<lambda>j. (j, param_body)) [n..<n + length (filter (\<lambda>b. b = BSeg) tps)]
        @ groups_of (hash_tail (n + length (filter (\<lambda>b. b = BSeg) tps)))"
proof (induction tps arbitrary: alts sq st n)
  case Nil
  then show ?case
    by (auto simp: parse_tail groups_of_close frame_groups_def split: if_splits)
next
  case (Cons b tps)
  have fl: "\<forall>t. BFlat t \<in> set tps \<longrightarrow> flat_token t" using Cons.prems(2) by simp
  note prem = Cons.prems(1)
  show ?case
  proof (cases b)
    case BNc
    then have "parse_tokens (concat (map block_toks tps) @ tail_toks)
                 ((None, [], []) # (None, alts, sq) # st) n = Inr (r, n')"
      using prem by simp
    from Cons.IH[OF this fl] show ?thesis by simp
  next
    case BSeg
    let ?k = "length (filter (\<lambda>b. b = BSeg) tps)"
    have "parse_tokens (concat (map block_toks tps) @ tail_toks)
                 ((None, alts, (seg_regex n, True) # sq) # st) (Suc n) = Inr (r, n')"
      using prem BSeg by (simp add: parse_seg)
    from Cons.IH[OF this fl] have
      ih: "st = []" "BNc \<notin> set tps" "n' = Suc n + ?k + 2"
          "groups_of r = frame_groups alts ((seg_regex n, True) # sq)
              @ map (\<lambda>j. (j, param_body)) [Suc n..<Suc n + ?k] @ groups_of (hash_tail (Suc n + ?k))"
      by simp_all
    have u: "[n..<Suc (n + ?k)] = n # [Suc n..<Suc (n + ?k)]" by (subst upt_rec) simp
    show ?thesis using ih BSeg
      by (simp add: frame_groups_def groups_of_seg u del: upt_Suc)
  next
    case (BFlat t)
    then have ft: "flat_token t" using Cons.prems(2) by simp
    show ?thesis
    proof (cases t)
      case (TAtom a)
      then have "groups_of a = []" using ft by (simp add: flat_token_def groups_of_none)
      moreover have "parse_tokens (concat (map block_toks tps) @ tail_toks)
                 ((None, alts, (a, True) # sq) # st) n = Inr (r, n')"
        using prem BFlat TAtom by simp
      from Cons.IH[OF this fl] show ?thesis using calculation BFlat
        by (simp add: frame_groups_def)
    next
      case (TAssert a)
      then have "groups_of a = []" using ft by (simp add: flat_token_def groups_of_none)
      moreover have "parse_tokens (concat (map block_toks tps) @ tail_toks)
                 ((None, alts, (a, False) # sq) # st) n = Inr (r, n')"
        using prem BFlat TAssert by simp
      from Cons.IH[OF this fl] show ?thesis using calculation BFlat
        by (simp add: frame_groups_def)
    next
      case TBar
      have "parse_tokens (concat (map block_toks tps) @ tail_toks)
                 ((None, seq_of (rev (map fst sq)) # alts, []) # st) n = Inr (r, n')"
        using prem BFlat TBar by simp
      from Cons.IH[OF this fl] show ?thesis using BFlat
        by (simp add: frame_groups_def groups_of_seq rev_map comp_def)
    next
      case (TQuant q g)
      show ?thesis
      proof (cases sq)
        case Nil
        then show ?thesis using prem BFlat TQuant by simp
      next
        case (Cons a sq')
        obtain r0 qb where a: "a = (r0, qb)" by (cases a)
        show ?thesis
        proof (cases qb)
          case False
          then show ?thesis using prem BFlat TQuant Cons a by simp
        next
          case True
          have "parse_tokens (concat (map block_toks tps) @ tail_toks)
                 ((None, alts, (apply_quant q g r0, False) # sq') # st) n = Inr (r, n')"
            using prem BFlat TQuant Cons a True by simp
          from Cons.IH[OF this fl] show ?thesis using BFlat Cons a
            by (simp add: frame_groups_def groups_of_quant)
        qed
      qed
    qed (use ft in \<open>simp_all add: flat_token_def\<close>)
  qed
qed

lemma foldr_cons_tok_Inl: "foldr cons_tok toks (Inl e) = Inl e"
  by (induction toks) (simp_all add: cons_tok_def)

lemma tail_lexed: "lexer LNormal ''((#.+)?)$'' = Inr tail_toks"
  by (simp add: lexer_hash_tail tail_toks_def)

lemma compile_groups:
  assumes "\<forall>ch\<in>set p. ch \<notin> set (backslash # ''*()['')"
    and "regexp_compile (regexp_source p) ic = Inr re"
  shows "Open \<notin> set (pattern_parts p)
       \<and> groups_of (re_ast re)
           = map (\<lambda>j. (j, param_body)) [1..<Suc (length (part_names (pattern_parts p)))]
             @ groups_of (hash_tail (Suc (length (part_names (pattern_parts p)))))
       \<and> re_groups re = length (part_names (pattern_parts p)) + 2"
proof -
  let ?ps = "pattern_parts p" and ?tail = "''((#.+)?)$''"
  let ?k = "length (part_names ?ps)"
  have np: "CHR ''('' \<notin> set p" "CHR '')'' \<notin> set p" "CHR ''*'' \<notin> set p"
    using assms(1) by auto
  have src: "regexp_source p = (if isHashRouter p then [] else ''^'') @ parts_source ?ps @ ?tail"
    using compiled_text(2)[OF np] .
  have pl: "\<forall>c. Lit c \<in> set ?ps \<longrightarrow> plain_char c"
    using assms(1) lits_of_parts[of _ p] by (auto simp: plain_char_def)
  from assms(2) obtain ts r n' where
    lx: "lexer LNormal (regexp_source p) = Inr ts" and
    pr: "parse_tokens ts [(None, [], [])] 1 = Inr (r, n')" and
    re: "re = \<lparr>re_ast = r, re_groups = n' - 1, re_ignoreCase = ic\<rparr>"
    by (auto simp: regexp_compile_def split: sum.splits)
  have body_ok: "\<exists>e. lexer LNormal (parts_source ?ps @ ?tail) = Inl e \<Longrightarrow> False"
  proof -
    assume "\<exists>e. lexer LNormal (parts_source ?ps @ ?tail) = Inl e"
    then obtain e where e: "lexer LNormal (parts_source ?ps @ ?tail) = Inl e" by blast
    have "lexer LNormal (regexp_source p) = Inl e"
      unfolding src using e lexer_bol[of "parts_source ?ps @ ?tail"] by (simp add: cons_tok_def)
    with lx show False by simp
  qed
  from lex_source[of ?tail ?ps] pl body_ok obtain tps where
    t: "lexer LNormal (parts_source ?ps @ ?tail)
          = foldr cons_tok (concat (map block_toks tps)) (lexer LNormal ?tail)"
       "blocks_ok tps ?ps"
    by auto
  have body: "lexer LNormal (parts_source ?ps @ ?tail) = Inr (concat (map block_toks tps) @ tail_toks)"
    unfolding t(1) tail_lexed by (rule cons_toks_Inr)
  define tps' where "tps' = (if isHashRouter p then tps else BFlat (TAssert RBol) # tps)"
  have "lexer LNormal (regexp_source p) = Inr (concat (map block_toks tps') @ tail_toks)"
    unfolding src tps'_def using body lexer_bol[of "parts_source ?ps @ ?tail"]
    by (simp add: cons_tok_def)
  with lx have ts: "ts = concat (map block_toks tps') @ tail_toks" by simp
  have fl: "\<forall>t. BFlat t \<in> set tps' \<longrightarrow> flat_token t"
    using t(2) by (auto simp: tps'_def flat_token_def)
  have cnt: "length (filter (\<lambda>b. b = BSeg) tps') = ?k" "BNc \<in> set tps' \<longleftrightarrow> Open \<in> set ?ps"
    using t(2) by (auto simp: tps'_def)
  from parse_blocks[OF pr[unfolded ts] fl] have
    res: "BNc \<notin> set tps'" "n' = 1 + ?k + 2"
         "groups_of r = map (\<lambda>j. (j, param_body)) [1..<1 + ?k] @ groups_of (hash_tail (1 + ?k))"
    unfolding cnt by (simp_all add: frame_groups_def)
  show ?thesis using res cnt(2) by (simp add: re)
qed

subsection \<open>Binding\<close>

lemma exec_from_groups:
  "exec_from re i s = Some mt \<Longrightarrow> length (m_groups mt) = re_groups re"
proof (induction s arbitrary: i)
  case Nil
  then show ?case by (auto simp: try_at_def split: list.splits)
next
  case (Cons c cs)
  then show ?case by (auto simp: try_at_def split: list.splits option.splits)
qed

lemma bind_take:
  "bind_params ks ms ps = bind_params ks (take (length ks) ms) ps"
proof (induction ks arbitrary: ms ps)
  case Nil
  then show ?case by simp
next
  case (Cons k ks)
  have "bind_params ks (drop 1 ms) q = bind_params ks (drop 1 (take (Suc (length ks)) ms)) q" for q
    using Cons.IH[of "drop 1 ms" q] Cons.IH[of "drop 1 (take (Suc (length ks)) ms)" q]
    by (simp add: drop_take)
  moreover have "(case ms of [] \<Rightarrow> None | m # _ \<Rightarrow> m)
                   = (case take (Suc (length ks)) ms of [] \<Rightarrow> None | m # _ \<Rightarrow> m)"
    by (cases ms) simp_all
  ultimately show ?case by simp
qed

lemma map_of_obj_set: "map_of (obj_set k v ps) = (map_of ps)(k \<mapsto> v)"
  by (induction ps) (auto simp: fun_eq_iff)

lemma bind_other: "k \<notin> set ks \<Longrightarrow> map_of (bind_params ks ms ps) k = map_of ps k"
  by (induction ks arbitrary: ms ps) (simp_all add: map_of_obj_set)

lemma bind_get:
  "i < length ks \<Longrightarrow> length ks \<le> length ms \<Longrightarrow> ks ! i \<notin> set (drop (Suc i) ks) \<Longrightarrow>
   ks ! i \<noteq> ''__proto__'' \<Longrightarrow>
   obj_get (bind_params ks ms ps) (ks ! i) = ms ! i"
proof (induction ks arbitrary: i ms ps)
  case Nil
  then show ?case by simp
next
  case (Cons k ks)
  from Cons.prems(2) obtain m ms' where ms: "ms = m # ms'" by (cases ms) auto
  show ?case
  proof (cases i)
    case 0
    then show ?thesis using Cons.prems ms
      by (simp add: obj_get_def bind_other map_of_obj_set)
  next
    case (Suc j)
    then show ?thesis using Cons.prems ms Cons.IH[of j ms'] by simp
  qed
qed

section \<open>Dispatch: the first registered match\<close>

subsection \<open>What a dispatch can call\<close>

lemma register_log: "log (state_of (register p h s)) = log s"
  by (simp add: register_def state_of_def Let_def split: sum.splits option.splits)







lemma init_events_fields [simp]:
  "log (init_events s) = log s" "watching (init_events s) = watching s"
  "middlewares (init_events s) = middlewares s" "running (init_events s) = running s"
  "location (init_events s) = location s"
  by (simp_all add: init_events_def split: option.splits)


lemma emit_quiet: "quiet s ''statechange'' \<Longrightarrow> emit ''statechange'' args s = Normal (init_events s)"
  by (auto simp: emit_def quiet_def Let_def listeners_of_def init_events_def object_prototype_def
           split: option.splits)

lemma first_run_log:
  "log (state_of (first_run opts s)) = log s @ first_run_calls opts s"
  by (auto simp: first_run_def first_run_calls_def emit_def quiet_def Let_def listeners_of_def
        init_events_def object_prototype_def state_of_def logged_def split: option.splits jsval.splits)


subsection \<open>The chain when every middleware continues at most once\<close>

lemma resume_drained: "\<forall>e\<in>set st. snd e = 0 \<Longrightarrow> resume mws hit c i st s = Normal s"
  by (induction st) auto

lemma layer_chain:
  assumes "\<forall>f\<in>set fs. calls_next f c \<le> 1"
  shows "i \<le> length fs \<Longrightarrow> \<forall>e\<in>set st. snd e = 0 \<Longrightarrow>
         layer (map VFun fs) (HVal (VFun h)) c i st s
           = Normal (s\<lparr>log := log s @ expected_chain (drop i fs) c i h\<rparr>)"
proof (induction "length fs - i" arbitrary: i st s)
  case 0
  then have "i = length fs" by simp
  then show ?case
    using 0 by (simp add: layer.simps arr_get_def truthy_def invoke_def logged_def resume_drained)
next
  case (Suc n)
  then have lt: "i < length fs" by simp
  let ?f = "fs ! i"
  have d: "drop i fs = ?f # drop (Suc i) fs" using lt by (simp add: Cons_nth_drop_Suc)
  have le: "calls_next ?f c \<le> 1" using assms lt by simp
  show ?case
  proof (cases "calls_next ?f c = 0")
    case True
    then show ?thesis
      using lt Suc.prems by (simp add: layer.simps arr_get_def truthy_def d logged_def resume_drained)
  next
    case False
    then have one: "calls_next ?f c = Suc 0" using le by simp
    have ih: "layer (map VFun fs) (HVal (VFun h)) c (Suc i) ((i, 0) # st) s'
                = Normal (s'\<lparr>log := log s' @ expected_chain (drop (Suc i) fs) c (Suc i) h\<rparr>)" for s'
      using Suc.hyps(1) [of "Suc i" "(i, 0) # st" s'] Suc.hyps(2) lt Suc.prems by simp
    show ?thesis
      using lt by (simp add: layer.simps [of _ _ _ i] arr_get_def truthy_def d one ih logged_def)
  qed
qed



lemma quiet_log [simp]: "quiet (s\<lparr>log := l\<rparr>) ty = quiet s ty"
  by (simp add: quiet_def listeners_of_def)

lemma quiet_init [simp]: "quiet (init_events s) ty = quiet s ty"
  by (simp add: quiet_def listeners_of_def init_events_def split: option.splits)





subsection \<open>The first match wins\<close>




text \<open>
  With a \<^verbatim>\<open>statechange\<close> listener the dispatch does not reach the loop: \<^verbatim>\<open>watch.emit\<close>
  throws a ReferenceError, and nothing is called.
\<close>

lemma dispatch_with_listener_throws:
  "(case on ''statechange'' (VFun (fn 9 0)) two_rules of
      Normal s \<Rightarrow> (case run \<lparr>url = Some ''/a'', callback = VUndefined\<rparr> s of
                     Normal s' \<Rightarrow> False
                   | Throws e s' \<Rightarrow> e = ReferenceError \<and> log s' = [])
    | Throws e s \<Rightarrow> False)"
  by code_simp

section \<open>Parameter binding for \<^verbatim>\<open>/user/:id\<close>\<close>

text \<open>
  C3. With the pattern \<^verbatim>\<open>/user/:id\<close> registered on a new router, dispatching the path
  \<^verbatim>\<open>/user/42\<close> calls the handler with \<^verbatim>\<open>params.id === "42"\<close>, and dispatching
  \<^verbatim>\<open>/user\<close> calls it too, with \<^verbatim>\<open>params.id === undefined\<close>.
\<close>

theorem user_id_param_binding:
  "log (state_of (watch [VStr ''/user/42'']
          (state_of (watch [VStr ''/user/:id'', VFun h] (fresh loc)))))
     = [HandlerCalled (fid h) \<lparr>params = [(''id'', Some ''42'')], path = ''/user/42''\<rparr>]
   \<and> param \<lparr>params = [(''id'', Some ''42'')], path = ''/user/42''\<rparr> ''id'' = Some ''42''
   \<and> log (state_of (watch [VStr ''/user'']
          (state_of (watch [VStr ''/user/:id'', VFun h] (fresh loc)))))
     = [HandlerCalled (fid h) \<lparr>params = [(''id'', None)], path = ''/user''\<rparr>]
   \<and> param \<lparr>params = [(''id'', None)], path = ''/user''\<rparr> ''id'' = None"
  by code_simp

section \<open>The middleware chain\<close>

lemma use_first: "middlewares s = None \<Longrightarrow> middlewares (use ms s) = Some ms"
  by (simp add: use_def)

text \<open>
  The claim as stated fails when a middleware calls its continuation twice. With
  \<^verbatim>\<open>use(m1, m2)\<close>, \<open>m1\<close> calling its continuation twice and \<open>m2\<close> never, the first call
  runs \<open>m2\<close> and the second, with the shared counter at 2, runs the handler: the handler
  is called although \<open>m2\<close> did not call its continuation.
\<close>

theorem middleware_chain_counterexample:
  "log (state_of (watch [VStr ''/a'']
          (use [VFun (fn 11 2), VFun (fn 12 0)]
             (state_of (watch [VStr ''/a'', VFun (fn 1 0)] (fresh []))))))
     = [MiddlewareCalled 0 11, NextCalled 0, MiddlewareCalled 1 12, NextCalled 0,
        HandlerCalled 1 \<lparr>params = [], path = ''/a''\<rparr>]"
  by code_simp

text \<open>
  C4, amended. Let the middlewares \<open>fs\<close> be registered by one call of \<^verbatim>\<open>use\<close> on a
  router without middlewares, and let a dispatch match a rule whose handler is the
  function \<open>h\<close>. If no middleware calls its continuation more than once, the calls are
  exactly \<open>expected_chain\<close>: each middleware is called after its predecessor has called
  its continuation, the handler is called after the last middleware has called its
  continuation, and after a middleware that does not call its continuation nothing
  more is called.
\<close>

theorem middleware_chain_order:
  assumes "middlewares s = None"
    and "\<forall>f\<in>set fs. calls_next f \<lparr>params = ps, path = pth\<rparr> \<le> 1"
    and "handler r = HVal (VFun h)"
    and "paramsParser pth r = Inr ps"
  shows "hit_rule r pth (use (map VFun fs) s) =
           Normal ((use (map VFun fs) s)
             \<lparr>log := log s @ expected_chain fs \<lparr>params = ps, path = pth\<rparr> 0 h\<rparr>)"
proof -
  have "log (use (map VFun fs) s) = log s" by (simp add: use_def)
  then show ?thesis
    using assms layer_chain [OF assms(2), of 0 "[]" h "use (map VFun fs) s"]
    by (simp add: hit_rule_def use_first)
qed

text \<open>
  Two middlewares that each call their continuation once, then one where the first
  does and the second does not, then one where the first does not.
\<close>

theorem middleware_chain_order_witness:
  "log (state_of (hit_rule (rule_a 1) ''/a'' (use (map VFun [fn 11 1, fn 12 1]) (fresh []))))
     = [MiddlewareCalled 0 11, NextCalled 0, MiddlewareCalled 1 12, NextCalled 1,
        HandlerCalled 1 \<lparr>params = [], path = ''/a''\<rparr>]
   \<and> log (state_of (hit_rule (rule_a 1) ''/a'' (use (map VFun [fn 11 1, fn 12 0]) (fresh []))))
     = [MiddlewareCalled 0 11, NextCalled 0, MiddlewareCalled 1 12]
   \<and> log (state_of (hit_rule (rule_a 1) ''/a'' (use (map VFun [fn 11 0, fn 12 1]) (fresh []))))
     = [MiddlewareCalled 0 11]"
proof -
  have p: "paramsParser ''/a'' (rule_a 1) = Inr []" by code_simp
  have h: "handler (rule_a 1) = HVal (VFun (fn 1 0))" by (simp add: rule_a_def)
  have m: "middlewares (fresh []) = None" by (simp add: fresh_def)
  have l: "log (fresh []) = []" by (simp add: fresh_def)
  show ?thesis
    using middleware_chain_order [OF m _ h p, of "[fn 11 1, fn 12 1]"]
          middleware_chain_order [OF m _ h p, of "[fn 11 1, fn 12 0]"]
          middleware_chain_order [OF m _ h p, of "[fn 11 0, fn 12 1]"]
    by (simp add: fn_def state_of_def l)
qed

section \<open>Literal patterns\<close>

text \<open>
  The claim as stated fails in several ways: the expression is compiled with the flag
  \<^verbatim>\<open>i\<close>, so \<^verbatim>\<open>/a\<close> matches \<^verbatim>\<open>/A\<close>; a pattern is not escaped, so \<^verbatim>\<open>/a.b\<close> matches
  \<^verbatim>\<open>/axb\<close>; a pattern that starts with \<^verbatim>\<open>#\<close> is not anchored, so \<^verbatim>\<open>#a\<close> matches
  \<^verbatim>\<open>x#a\<close>; and the fragment must be non-empty and free of line terminators, so
  \<^verbatim>\<open>/a\<close> matches neither \<^verbatim>\<open>/a#\<close> nor \<^verbatim>\<open>/a#x\<close> followed by a line feed.
\<close>

theorem literal_pattern_counterexample:
  "map_sum id (\<lambda>c. re_test (regexp c) ''/A'') (pathToRegExp (PStr ''/a'')) = Inr True
   \<and> map_sum id (\<lambda>c. re_test (regexp c) ''/axb'') (pathToRegExp (PStr ''/a.b'')) = Inr True
   \<and> map_sum id (\<lambda>c. re_test (regexp c) ''x#a'') (pathToRegExp (PStr ''#a'')) = Inr True
   \<and> map_sum id (\<lambda>c. re_test (regexp c) ''/a#'') (pathToRegExp (PStr ''/a'')) = Inr False
   \<and> map_sum id (\<lambda>c. re_test (regexp c) (''/a#x'' @ [CHR 0x0A])) (pathToRegExp (PStr ''/a''))
       = Inr False"
  by code_simp

text \<open>
  C5, amended. For every pattern \<open>p\<close> that contains no \<^verbatim>\<open>:\<close> and no character with a
  meaning in regular expressions (so no \<^verbatim>\<open>*\<close> either) and does not start with
  \<^verbatim>\<open>#\<close>, the pattern compiles, without parameter names, to an expression that matches
  exactly the paths equal to \<open>p\<close> up to the case of letters, and those paths followed by
  \<^verbatim>\<open>#\<close> and a non-empty fragment without line terminators.
\<close>

theorem literal_pattern_matches:
  assumes "\<forall>c\<in>set p. \<not> metachar c \<and> c \<noteq> CHR '':''" and "p = [] \<or> hd p \<noteq> CHR ''#''"
  shows "\<exists>c. pathToRegExp (PStr p) = Inr c \<and> keys c = [] \<and>
           (\<forall>s. re_test (regexp c) s \<longleftrightarrow>
              (ci_eq s p \<or>
               (\<exists>f. f \<noteq> [] \<and> (\<forall>ch\<in>set f. \<not> is_line_terminator ch)
                   \<and> ci_eq (take (length p) s) p \<and> drop (length p) s = CHR ''#'' # f)))"
proof -
  let ?re = "\<lparr>re_ast = RSeq RBol (seq_of (map RChar p @ [hash_tail 1, REol])),
               re_groups = 2, re_ignoreCase = True\<rparr>"
  have m: "\<forall>c\<in>set p. \<not> metachar c" using assms(1) by simp
  have src: "regexp_source p = ''^'' @ p @ ''((#.+)?)$''"
    using regexp_source_plain[OF assms(1)] assms(2) by auto
  have k: "param_keys p = []"
    using assms(1) by (intro param_keys_none) (auto simp: metachar_def)
  have "pathToRegExp (PStr p) = Inr \<lparr>keys = [], regexp = ?re\<rparr>"
    using compile_plain(1)[OF m, of True] by (simp add: pathToRegExp_def src k)
  moreover have "re_test ?re s \<longleftrightarrow>
              (ci_eq s p \<or>
               (\<exists>f. f \<noteq> [] \<and> (\<forall>ch\<in>set f. \<not> is_line_terminator ch)
                   \<and> ci_eq (take (length p) s) p \<and> drop (length p) s = CHR ''#'' # f))" for s
    by (subst re_test_anchored[where r = "seq_of (map RChar p @ [hash_tail 1, REol])"])
       (simp_all add: literal_match_iff)
  ultimately show ?thesis by simp
qed

theorem literal_pattern_matches_witness:
  "\<exists>c. pathToRegExp (PStr ''/about'') = Inr c \<and> keys c = []
       \<and> re_test (regexp c) ''/about'' \<and> re_test (regexp c) ''/About#top''
       \<and> \<not> re_test (regexp c) ''/about/us'' \<and> \<not> re_test (regexp c) ''/abou''"
proof -
  have a: "\<forall>c\<in>set ''/about''. \<not> metachar c \<and> c \<noteq> CHR '':''"
    by (simp add: metachar_def backslash_def)
  have b: "''/about'' = [] \<or> hd ''/about'' \<noteq> CHR ''#''" by simp
  have u: "map to_upper ''/About'' = map to_upper ''/about''" by code_simp
  have n: "map to_upper ''/about/us'' \<noteq> map to_upper ''/about''"
          "map to_upper ''/abou'' \<noteq> map to_upper ''/about''" by simp_all
  have t: "\<not> is_line_terminator (CHR ''t'') \<and> \<not> is_line_terminator (CHR ''o'')
           \<and> \<not> is_line_terminator (CHR ''p'')" by code_simp
  from literal_pattern_matches [OF a b] obtain c where
    c: "pathToRegExp (PStr ''/about'') = Inr c" "keys c = []"
       "\<And>s. re_test (regexp c) s \<longleftrightarrow>
          (ci_eq s ''/about'' \<or>
           (\<exists>f. f \<noteq> [] \<and> (\<forall>ch\<in>set f. \<not> is_line_terminator ch)
               \<and> ci_eq (take (length ''/about'') s) ''/about''
               \<and> drop (length ''/about'') s = CHR ''#'' # f))"
    by blast
  have "re_test (regexp c) ''/about''" by (simp add: c(3) ci_eq_def)
  moreover have "re_test (regexp c) ''/About#top''" using u t by (simp add: c(3) ci_eq_def)
  moreover have "\<not> re_test (regexp c) ''/about/us''" using n by (simp add: c(3) ci_eq_def)
  moreover have "\<not> re_test (regexp c) ''/abou''" using n by (simp add: c(3) ci_eq_def)
  ultimately show ?thesis using c(1,2) by blast
qed

section \<open>A dispatch that matches nothing\<close>

lemma silent_miss:
  "\<forall>r\<in>set rs. exec (regexp r) pth = None \<Longrightarrow> dispatch rs pth s = Normal s"
  by (induction rs) auto

lemma run_silent_miss:
  assumes "watching s = Some rs" and "\<forall>r\<in>set rs. exec (regexp r) pth = None" and "pth \<noteq> []"
    and "quiet s ''statechange''"
  shows "run \<lparr>url = Some pth, callback = cb\<rparr> s
           = first_run \<lparr>url = Some pth, callback = cb\<rparr> (init_events s)
       \<and> log (state_of (run \<lparr>url = Some pth, callback = cb\<rparr> s))
           = log s @ first_run_calls \<lparr>url = Some pth, callback = cb\<rparr> s"
proof -
  have "run \<lparr>url = Some pth, callback = cb\<rparr> s
          = first_run \<lparr>url = Some pth, callback = cb\<rparr> (init_events s)"
    using assms by (simp add: run_def emit_quiet silent_miss)
  moreover have "first_run_calls opts (init_events s) = first_run_calls opts s" for opts
    by (simp add: first_run_calls_def)
  ultimately show ?thesis by (simp add: first_run_log)
qed

text \<open>
  C6. When rules are registered, none matches and the router has no \<^verbatim>\<open>statechange\<close>
  listener, \<^verbatim>\<open>watch.run\<close> goes on to its first-run part and calls no middleware and no
  handler (\<open>run_silent_miss\<close>). On a router where nothing was
  ever registered, however, \<^verbatim>\<open>_watching\<close> is \<^verbatim>\<open>undefined\<close>, and every form of dispatch
  throws a TypeError after the \<^verbatim>\<open>statechange\<close> event.
\<close>

theorem run_without_registration_throws:
  "run opts (fresh loc) = Throws TypeError ((fresh loc)\<lparr>events := Some Map.empty\<rparr>)
   \<and> watch [] (fresh loc) = Throws TypeError ((fresh loc)\<lparr>events := Some Map.empty\<rparr>)
   \<and> watch [VStr ''/x''] (fresh loc) = Throws TypeError ((fresh loc)\<lparr>events := Some Map.empty\<rparr>)"
  by (simp add: run_def watch_def emit_def init_events_def fresh_def listeners_of_def no_options_def
        object_prototype_def)

section \<open>Registration of a regular expression, and of a redirect\<close>

text \<open>
  C7. \<^verbatim>\<open>pathToRegExp\<close> returns a regular expression unchanged, with no parameter names;
  but \<^verbatim>\<open>createRule\<close> calls \<^verbatim>\<open>path.indexOf\<close> before it, which a regular expression
  does not have: registering one throws a TypeError, whatever the router.
\<close>

theorem register_regexp_throws:
  "watch [VRegExp re, VFun h] s =
     Throws TypeError (s\<lparr>watching := Some (case watching s of None \<Rightarrow> [] | Some rs \<Rightarrow> rs)\<rparr>)
   \<and> pathToRegExp (PRegExp re) = Inr \<lparr>keys = [], regexp = re\<rparr>"
  by (simp add: watch_def register_def createRule_def pathToRegExp_def)

lemma invoke_redirect:
  "invoke (HRedirect target) c s =
     register (VStr ''url'') (VStringObj target) (logged (RedirectCalled target) s)"
  by (simp add: invoke_def split: res.splits)

text \<open>
  C8. The closure built for a \<^verbatim>\<open>String\<close> object calls \<^verbatim>\<open>watch({url: target})\<close>, which
  is the registration of a mapping and not a dispatch (\<open>invoke_redirect\<close>). With
  \<^verbatim>\<open>/old\<close> redirected to \<^verbatim>\<open>new String('/new')\<close> and \<^verbatim>\<open>/new\<close> handled by function 1,
  dispatching \<^verbatim>\<open>/old\<close> calls no handler and leaves a third rule, for the pattern
  \<^verbatim>\<open>url\<close>. With a primitive string as handler there is no closure at all, and the
  dispatch throws a TypeError.
\<close>

theorem redirect_handler_registers_instead:
  "(case watch [VStr ''/old''] redirect_router of
      Normal s \<Rightarrow> log s = [RedirectCalled ''/new'']
                 \<and> map_option (map (\<lambda>r. case handler r of HRedirect t \<Rightarrow> Some t | _ \<Rightarrow> None))
                      (watching s)
                     = Some [Some ''/new'', None, Some ''/new'']
                 \<and> map_option (map (\<lambda>r. re_test (regexp r) ''url'')) (watching s)
                     = Some [False, False, True]
    | Throws e s \<Rightarrow> False)
   \<and> (case watch [VStr ''/old''] (state_of (watch [VStr ''/old'', VStr ''/new''] (fresh []))) of
      Normal s \<Rightarrow> False
    | Throws e s \<Rightarrow> e = TypeError \<and> log s = [])"
  by code_simp

section \<open>Listeners\<close>

lemma find_from_absent: "\<forall>x\<in>set xs. \<not> same x \<Longrightarrow> find_from same xs i = - 1"
  by (induction xs arbitrary: i) auto

lemma splice_last: "xs \<noteq> [] \<Longrightarrow> splice (- 1) 1 xs = butlast xs"
  by (cases xs rule: rev_cases) (auto simp: splice_def Let_def)

lemma init_events_id: "listeners_of s ty = Some hs \<Longrightarrow> init_events s = s"
  by (auto simp: init_events_def listeners_of_def split: option.splits)

lemma listeners_of_set: "listeners_of (set_listeners ty v s) ty = v"
  by (simp add: listeners_of_def set_listeners_def)

text \<open>
  C10. When the listener list of an event type is not empty and \<open>f\<close> is not in it,
  \<^verbatim>\<open>removeEventListener(type, f)\<close> removes the last listener of the list, so the list
  changes; as \<^verbatim>\<open>on\<close> appends, the last listener is the one added most recently:
  after \<^verbatim>\<open>on(type, g)\<close>, removing \<open>f\<close> removes \<open>g\<close>.
\<close>

theorem remove_unregistered_listener_removes_last:
  assumes "listeners_of s ty = Some hs" and "hs \<noteq> []" and "\<forall>h\<in>set hs. fid h \<noteq> fid f"
  shows "removeEventListener ty (VFun f) s = Normal (set_listeners ty (Some (butlast hs)) s)
       \<and> butlast hs \<noteq> hs
       \<and> (fid g \<noteq> fid f \<longrightarrow>
            listeners_of (state_of (removeEventListener ty (VFun f) (state_of (on ty (VFun g) s)))) ty
              = Some hs)"
proof -
  have i: "init_events s = s" using assms(1) by (rule init_events_id)
  have a: "find_from (\<lambda>h. fid h = fid f) hs 0 = - 1"
    using assms(3) by (intro find_from_absent) simp
  have 1: "removeEventListener ty (VFun f) s = Normal (set_listeners ty (Some (butlast hs)) s)"
    using assms(1,2) by (simp add: removeEventListener_def i a splice_last)
  have 2: "butlast hs \<noteq> hs" using assms(2) by (cases hs rule: rev_cases) auto
  have on: "state_of (on ty (VFun g) s) = set_listeners ty (Some (hs @ [g])) s"
    using assms(1) by (simp add: on_def i state_of_def)
  have ev: "init_events (set_listeners ty v s) = set_listeners ty v s" for v
    by (simp add: init_events_def set_listeners_def)
  have 3: "listeners_of (state_of (removeEventListener ty (VFun f) (state_of (on ty (VFun g) s)))) ty = Some hs"
    if "fid g \<noteq> fid f"
  proof -
    have "find_from (\<lambda>h. fid h = fid f) (hs @ [g]) 0 = - 1"
      using assms(3) that by (intro find_from_absent) auto
    then have "removeEventListener ty (VFun f) (set_listeners ty (Some (hs @ [g])) s)
        = Normal (set_listeners ty (Some hs) (set_listeners ty (Some (hs @ [g])) s))"
      by (simp add: removeEventListener_def ev listeners_of_set splice_last)
    then show ?thesis
      unfolding on by (simp add: state_of_def listeners_of_set)
  qed
  from 1 2 3 show ?thesis by blast
qed

text \<open>Listeners 1 and 2 are added; removing the unregistered listener 3 removes 2.\<close>

theorem remove_unregistered_listener_removes_last_witness:
  "listeners_of (state_of (removeEventListener ''statechange'' (VFun (fn 3 0))
      (state_of (on ''statechange'' (VFun (fn 2 0))
        (state_of (on ''statechange'' (VFun (fn 1 0)) (fresh [])))))))
     ''statechange'' = Some [fn 1 0]"
proof -
  let ?s = "state_of (on ''statechange'' (VFun (fn 2 0))
              (state_of (on ''statechange'' (VFun (fn 1 0)) (fresh []))))"
  have l: "listeners_of ?s ''statechange'' = Some [fn 1 0, fn 2 0]"
    by (simp add: on_def init_events_def fresh_def listeners_of_def set_listeners_def state_of_def
          object_prototype_def)
  have "removeEventListener ''statechange'' (VFun (fn 3 0)) ?s
          = Normal (set_listeners ''statechange'' (Some (butlast [fn 1 0, fn 2 0])) ?s)"
    using remove_unregistered_listener_removes_last [OF l, of "fn 3 0" "fn 3 0"]
    by (simp add: fn_def)
  then show ?thesis by (simp add: state_of_def listeners_of_set)
qed

section \<open>Capturing groups and parameter names\<close>

text \<open>
  The claim as stated fails for the two kinds of pattern it names, and for others. A
  \<^verbatim>\<open>*\<close> becomes the capturing group \<^verbatim>\<open>(.*)\<close> and declares no name: the pattern
  \<^verbatim>\<open>*\<close> has three groups and no name. A group written in the pattern is a capturing
  group of the expression: \<^verbatim>\<open>/(a|b)/:id\<close> has one name and four groups, and \<open>id\<close> is
  bound to what \<^verbatim>\<open>(a|b)\<close> matched. The parentheses of a constraint are removed, so
  \<^verbatim>\<open>/user/:id(\d+)\<close> compiles to \<^verbatim>\<open>^/user(?:\d+?)((#.+)?)$\<close>: one name and only the
  two hash groups, and \<open>id\<close> is bound to the first hash group. A backslash or a
  bracket of the pattern can take a parenthesis of the generated text out of the
  group structure: \<^verbatim>\<open>/:\<close> followed by a backslash compiles to
  \<^verbatim>\<open>^(?:\((#.+)?)$\<close>, with one group and no name, and
  \<^verbatim>\<open>/:/:[/:id\<close> to \<^verbatim>\<open>^(?:(?:[(?:/?([^/]+)?)((#.+)?)$\<close>, with one name and two groups.
\<close>

theorem parameter_groups_counterexample:
  "map_sum id (\<lambda>c. (keys c, re_groups (regexp c), group_ids (re_ast (regexp c))))
     (pathToRegExp (PStr ''*'')) = Inr ([], 3, [1, 2, 3])
   \<and> map_sum id (\<lambda>c. (keys c, re_groups (regexp c), group_ids (re_ast (regexp c))))
     (pathToRegExp (PStr ''/(a|b)/:id'')) = Inr ([''id''], 4, [1, 2, 3, 4])
   \<and> log (state_of (watch [VStr ''/b/9'']
          (state_of (watch [VStr ''/(a|b)/:id'', VFun (fn 1 0)] (fresh [])))))
       = [HandlerCalled 1 \<lparr>params = [(''id'', Some ''b'')], path = ''/b/9''\<rparr>]
   \<and> map_sum id (\<lambda>c. (keys c, re_groups (regexp c), group_ids (re_ast (regexp c))))
     (pathToRegExp (PStr (''/user/:id('' @ [backslash] @ ''d+)''))) = Inr ([''id''], 2, [1, 2])
   \<and> log (state_of (watch [VStr ''/user5#top'']
          (state_of (watch [VStr (''/user/:id('' @ [backslash] @ ''d+)''), VFun (fn 1 0)] (fresh [])))))
       = [HandlerCalled 1 \<lparr>params = [(''id'', Some ''#top'')], path = ''/user5#top''\<rparr>]
   \<and> map_sum id (\<lambda>c. (keys c, re_groups (regexp c), group_ids (re_ast (regexp c))))
     (pathToRegExp (PStr (''/:'' @ [backslash]))) = Inr ([], 1, [1])
   \<and> map_sum id (\<lambda>c. (keys c, re_groups (regexp c), group_ids (re_ast (regexp c))))
     (pathToRegExp (PStr ''/:/:[/:id'')) = Inr ([''id''], 2, [1, 2])"
  by code_simp

text \<open>
  C2, amended. For every string pattern that contains no \<^verbatim>\<open>*\<close>, no parenthesis, no
  backslash and no \<^verbatim>\<open>[\<close>, and that compiles:
  the parameter names are the identifiers of the \<^verbatim>\<open>:name\<close> parts of the pattern, in
  their order from left to right, and every colon part has a name;
  the source of the expression is the pattern with each such part replaced, in place,
  by the segment \<^verbatim>\<open>(?:/?([^/]+)?)\<close>, followed by \<^verbatim>\<open>((#.+)?)$\<close>;
  the capturing groups of the expression, in the order of their opening parentheses,
  are one group \<^verbatim>\<open>([^/]+)\<close> per name, numbered from 1 in that order, and then the two
  groups of the hash suffix;
  and for every path that the expression matches, \<^verbatim>\<open>paramsParser\<close> binds from the
  groups of the names only, never from the two hash groups, the value of the name at
  index \<open>i\<close> being group \<open>i + 1\<close> (for a name that does not occur again later in
  the list, and that is not \<^verbatim>\<open>__proto__\<close>).
\<close>

theorem parameter_groups_follow_names:
  assumes "\<forall>ch\<in>set p. ch \<notin> set (backslash # ''*()['')" and "pathToRegExp (PStr p) = Inr c"
  shows "keys c = part_names (pattern_parts p) \<and> Open \<notin> set (pattern_parts p)
       \<and> regexp_source p = (if isHashRouter p then [] else ''^'')
                              @ concat (map part_source (pattern_parts p)) @ ''((#.+)?)$''
       \<and> groups_of (re_ast (regexp c))
           = map (\<lambda>j. (j, param_body)) [1..<Suc (length (keys c))]
             @ groups_of (hash_tail (Suc (length (keys c))))
       \<and> re_groups (regexp c) = length (keys c) + 2
       \<and> (\<forall>url mt. exec (regexp c) url = Some mt \<longrightarrow>
             length (m_groups mt) = length (keys c) + 2
           \<and> paramsParser url \<lparr>keys = keys c, regexp = regexp c, handler = h\<rparr>
               = Inr (bind_params (keys c) (take (length (keys c)) (m_groups mt)) [])
           \<and> (\<forall>i<length (keys c).
                 keys c ! i \<notin> set (drop (Suc i) (keys c)) \<longrightarrow> keys c ! i \<noteq> ''__proto__'' \<longrightarrow>
                 obj_get (bind_params (keys c) (take (length (keys c)) (m_groups mt)) []) (keys c ! i)
                   = m_groups mt ! i))"
proof -
  have np: "CHR ''('' \<notin> set p" "CHR '')'' \<notin> set p" "CHR ''*'' \<notin> set p"
    using assms(1) by auto
  from assms(2) obtain re where
    re: "regexp_compile (regexp_source p) True = Inr re" and
    c: "keys c = param_keys p" "regexp c = re"
    by (auto simp: pathToRegExp_def split: sum.splits)
  have k: "keys c = part_names (pattern_parts p)" using c(1) compiled_text(1)[OF np(1,2)] by simp
  note g = compile_groups[OF assms(1) re]
  have b: "length (m_groups mt) = length (keys c) + 2
           \<and> paramsParser url \<lparr>keys = keys c, regexp = regexp c, handler = h\<rparr>
               = Inr (bind_params (keys c) (take (length (keys c)) (m_groups mt)) [])
           \<and> (\<forall>i<length (keys c).
                 keys c ! i \<notin> set (drop (Suc i) (keys c)) \<longrightarrow> keys c ! i \<noteq> ''__proto__'' \<longrightarrow>
                 obj_get (bind_params (keys c) (take (length (keys c)) (m_groups mt)) []) (keys c ! i)
                   = m_groups mt ! i)"
    if e: "exec (regexp c) url = Some mt" for url mt
  proof -
    have l: "length (m_groups mt) = length (keys c) + 2"
      using exec_from_groups[of "regexp c" 0 url mt] e g k c(2) by (simp add: exec_def)
    have "paramsParser url \<lparr>keys = keys c, regexp = regexp c, handler = h\<rparr>
            = Inr (bind_params (keys c) (m_groups mt) [])"
      using e by (simp add: paramsParser_def match_array_def)
    then have p: "paramsParser url \<lparr>keys = keys c, regexp = regexp c, handler = h\<rparr>
            = Inr (bind_params (keys c) (take (length (keys c)) (m_groups mt)) [])"
      using bind_take[of "keys c" "m_groups mt" "[]"] by simp
    have "obj_get (bind_params (keys c) (take (length (keys c)) (m_groups mt)) []) (keys c ! i)
            = m_groups mt ! i"
      if "i < length (keys c)" "keys c ! i \<notin> set (drop (Suc i) (keys c))" "keys c ! i \<noteq> ''__proto__''"
      for i
      using bind_get[of i "keys c" "take (length (keys c)) (m_groups mt)" "[]"] that l by simp
    with l p show ?thesis by blast
  qed
  show ?thesis
    using k g compiled_text(2)[OF np] b c(2) by simp
qed

text \<open>
  The pattern \<^verbatim>\<open>/user/:id/:tab\<close>: the names are \<open>id\<close> and \<open>tab\<close>, groups 1 and 2 are
  theirs and groups 3 and 4 belong to the hash suffix; for the path \<^verbatim>\<open>/user/7/posts\<close>
  the groups are \<^verbatim>\<open>7\<close>, \<^verbatim>\<open>posts\<close>, the empty string and \<^verbatim>\<open>undefined\<close>, and the
  parameters are \<open>id = 7\<close> and \<open>tab = posts\<close>.
\<close>

theorem parameter_groups_follow_names_witness:
  "pattern_parts ''/user/:id/:tab'' = map Lit ''/user'' @ [Param ''id'', Param ''tab'']
   \<and> map_sum id (\<lambda>c. (keys c, re_groups (regexp c), groups_of (re_ast (regexp c))))
         (pathToRegExp (PStr ''/user/:id/:tab''))
       = Inr ([''id'', ''tab''], 4, [(1, param_body), (2, param_body)] @ groups_of (hash_tail 3))
   \<and> map_sum id (\<lambda>c. map_option
            (\<lambda>mt. (m_groups mt,
                   paramsParser ''/user/7/posts''
                     \<lparr>keys = keys c, regexp = regexp c, handler = HVal VUndefined\<rparr>))
            (exec (regexp c) ''/user/7/posts''))
         (pathToRegExp (PStr ''/user/:id/:tab''))
       = Inr (Some ([Some ''7'', Some ''posts'', Some [], None],
                    Inr [(''id'', Some ''7''), (''tab'', Some ''posts'')]))"
proof -
  let ?p = "''/user/:id/:tab''" and ?u = "''/user/7/posts''"
  have a: "\<forall>ch\<in>set ?p. ch \<notin> set (backslash # ''*()['')" by (simp add: backslash_def)
  have "\<not> isl (pathToRegExp (PStr ?p))" by code_simp
  then obtain c where c: "pathToRegExp (PStr ?p) = Inr c"
    by (cases "pathToRegExp (PStr ?p)") auto
  have pp: "pattern_parts ?p = map Lit ''/user'' @ [Param ''id'', Param ''tab'']" by code_simp
  have "map_sum id (\<lambda>c. map_option m_groups (exec (regexp c) ?u)) (pathToRegExp (PStr ?p))
          = Inr (Some [Some ''7'', Some ''posts'', Some [], None])"
    by code_simp
  then obtain mt where mt: "exec (regexp c) ?u = Some mt"
      "m_groups mt = [Some ''7'', Some ''posts'', Some [], None]"
    unfolding c by auto
  note t = parameter_groups_follow_names [OF a c, of "HVal VUndefined"]
  have k: "keys c = [''id'', ''tab'']" using t by (simp add: pp)
  have g: "groups_of (re_ast (regexp c)) = [(1, param_body), (2, param_body)] @ groups_of (hash_tail 3)"
          "re_groups (regexp c) = 4"
    using t unfolding k by (simp_all add: numeral_3_eq_3)
  have "paramsParser ?u \<lparr>keys = keys c, regexp = regexp c, handler = HVal VUndefined\<rparr>
          = Inr (bind_params (keys c) (take (length (keys c)) (m_groups mt)) [])"
    using t mt(1) by blast
  then have b: "paramsParser ?u \<lparr>keys = keys c, regexp = regexp c, handler = HVal VUndefined\<rparr>
          = Inr [(''id'', Some ''7''), (''tab'', Some ''posts'')]"
    by (simp add: k mt(2))
  show ?thesis using pp k g b mt by (simp add: c)
qed


section \<open>Array patterns\<close>

text \<open>
  The claim as stated fails on its second half: the joined text goes through the same
  rewriting as a string pattern, so a \<^verbatim>\<open>:name\<close> token inside an alternative is
  recorded. For \<^verbatim>\<open>['/a/:id', '/b']\<close> the parameter names are \<^verbatim>\<open>['id']\<close>.
\<close>

theorem array_pattern_keys_counterexample:
  "map_sum id keys (pathToRegExp (PArr [''/a/:id'', ''/b''])) = Inr [''id'']
   \<and> regexp_source (''('' @ join ''|'' [''/a/:id'', ''/b''] @ '')'')
       = ''^(/a(?:/?([^/]+)?)|/b)((#.+)?)$''"
  by code_simp


text \<open>
  C9, amended. \<^verbatim>\<open>pathToRegExp\<close> compiles an array of strings exactly as it compiles
  the string \<^verbatim>\<open>(p1|p2|...)\<close>, parameter names included; the list of names is empty
  when no alternative contains a colon.
\<close>

theorem array_pattern_is_joined_string:
  "pathToRegExp (PArr ps) = pathToRegExp (PStr (''('' @ join ''|'' ps @ '')''))
   \<and> ((\<forall>p\<in>set ps. CHR '':'' \<notin> set p) \<longrightarrow>
        (\<forall>c. pathToRegExp (PArr ps) = Inr c \<longrightarrow> keys c = []))"
proof -
  have 1: "pathToRegExp (PArr ps) = pathToRegExp (PStr (''('' @ join ''|'' ps @ '')''))"
    by (simp add: pathToRegExp_def)
  have 2: "keys c = []" if a: "\<forall>p\<in>set ps. CHR '':'' \<notin> set p" and c: "pathToRegExp (PArr ps) = Inr c" for c
  proof -
    have "CHR '':'' \<notin> set (''('' @ join ''|'' ps @ '')'')"
      using a set_join[of "''|''" ps] by auto
    then have "param_keys (''('' @ join ''|'' ps @ '')'') = []" by (rule param_keys_no_colon)
    with c show ?thesis by (auto simp: pathToRegExp_def Let_def split: sum.splits)
  qed
  from 1 2 show ?thesis by blast
qed


theorem array_pattern_is_joined_string_witness:
  "pathToRegExp (PArr [''/a'', ''/b'']) = pathToRegExp (PStr ''(/a|/b)'')
   \<and> map_sum id keys (pathToRegExp (PArr [''/a'', ''/b''])) = Inr []"
proof -
  have n: "\<forall>p\<in>set [''/a'', ''/b'']. CHR '':'' \<notin> set p" by simp
  have "\<not> isl (pathToRegExp (PArr [''/a'', ''/b'']))" by code_simp
  then obtain c where c: "pathToRegExp (PArr [''/a'', ''/b'']) = Inr c"
    by (cases "pathToRegExp (PArr [''/a'', ''/b''])") auto
  from array_pattern_is_joined_string [of "[''/a'', ''/b'']"] n c
  have e: "pathToRegExp (PArr [''/a'', ''/b'']) = pathToRegExp (PStr ''(/a|/b)'')"
    and k: "keys c = []"
    by simp_all
  have "map_sum id keys (pathToRegExp (PArr [''/a'', ''/b''])) = Inr []"
    unfolding c using k by simp
  with e show ?thesis by blast
qed


text \<open>
  An array reaches \<^verbatim>\<open>pathToRegExp\<close> only when its first element is the base path.
  Otherwise \<^verbatim>\<open>createRule\<close> has already turned it into the string of its elements
  joined by commas: registered on a router with the empty base, \<^verbatim>\<open>['/a', '/b']\<close>
  matches the path \<^verbatim>\<open>/a,/b\<close> and not \<^verbatim>\<open>/a\<close>.
\<close>

lemma registered_array_is_comma_joined:
  "map_sum id (\<lambda>r. (re_test (regexp r) ''/a'', re_test (regexp r) ''/a,/b''))
     (createRule [] (VArr [''/a'', ''/b'']) VUndefined) = Inr (False, True)"
  by code_simp

end
